theory Spec2Isabelle
  imports Complex_Main "HOL-Library.AList"
begin

section \<open>Data model (tdl.ts)\<close>

text \<open>
  The converter reads a YAML tree, parses it into the TDL intermediate representation and
  lowers that representation to two JSON Schema dialects. JavaScript values are modelled as
  follows.
  \<^item> A \<^verbatim>\<open>number\<close> is an exact rational. The converter only stores, compares and prints
    numbers; the rounding of IEEE doubles plays no part in any property below.
  \<^item> A string is a list of characters; \<^verbatim>\<open>\s\<close>, \<^verbatim>\<open>trim\<close> and the line terminators are
    the ASCII ones.
  \<^item> An object literal, a \<^verbatim>\<open>Record\<close> and a \<^verbatim>\<open>Map\<close> are association lists of their own
    entries in insertion order. \<^verbatim>\<open>m.set(k, v)\<close>, a property of an object literal and
    \<^verbatim>\<open>Object.fromEntries\<close> are \<^const>\<open>AList.update\<close>, which replaces the value of a key
    in place and appends a new key at the end. The assignment \<^verbatim>\<open>o[k] = v\<close> is
    \<open>setProperty\<close> below, which differs for the key \<^verbatim>\<open>__proto__\<close>. The engine's
    enumeration of integer-like keys before the others is not represented.
  \<^item> A \<^verbatim>\<open>throw\<close> is the result \<open>Throw e\<close>; a computation that does not return is \<open>Diverge\<close>.
\<close>

type_synonym number = rat

datatype Literal = LString string | LNumber number | LBoolean bool

datatype PrimitiveName =
  PString | PNumber | PBoolean | PTypedoc | PImage | PAudio | PVideo | PNever

datatype IndexKind = KString | KEnum

datatype TypeNode =
    Primitive PrimitiveName
  | StringLiteral string
  | NumberLiteral number
  | BooleanLiteral bool
  | TypeRef string
  | UnionT "TypeNode list"
  | Intersection "TypeNode list"
  | Object "PropNode list" "IndexSigNode list" bool
and PropNode =
  PropNode (p_name: string) (p_type: TypeNode) (p_optional: bool) (p_isArray: bool)
and IndexSigNode =
  IndexSigNode (i_kind: IndexKind) (i_keys: "Literal list option") (i_valueType: TypeNode)
    (i_optional: bool) (i_isArray: bool)

text \<open>The object variant of \<^typ>\<open>TypeNode\<close>, as \<^verbatim>\<open>Extract<TypeNode, { kind: "object" }>\<close>.\<close>

record ObjectNode =
  o_props :: "PropNode list"
  o_indexSigs :: "IndexSigNode list"
  o_closed :: bool

record TypeDef =
  td_name :: string
  td_node :: TypeNode

record SymbolDef =
  s_name :: string
  s_type :: TypeNode
  s_optional :: bool
  s_isArray :: bool

text \<open>The tree delivered by the YAML reader.\<close>

datatype yaml =
    YNull
  | YBool bool
  | YNum number
  | YStr string
  | YSeq "yaml list"
  | YMap "(string \<times> yaml) list"

record TDLDoc =
  types :: "(string \<times> TypeDef) list"
  symbols :: "SymbolDef list"
  meta :: "(string \<times> yaml) list"

section \<open>Results, errors and loops\<close>

datatype error =
    TopLevelNotMapping
  | ExtendsNeedsObjectBody string
  | TypeMustBeScalarOrObject string
  | UnrecognizedTopLevelEntry string
  | InvalidLabel string
  | InvalidIndexLabel string
  | EnumLikeNotLiterals string
  | EmptyTypeExpression
  | FunctionTypesNotSupported string
  | ConditionalsNotSupported string
  | QualifiedImportsNotSupported string
  | GenericsNotSupported string
  | UnrecognizedTypeExpression string
  | UnknownTypeReference string
  | UnknownType string
  | NotALiteral
  | StringIndexSignaturesNotSupported
  | OperandsMustBeObjectLike

datatype 'a res = Ret 'a | Throw error | Diverge

definition bind :: "'a res \<Rightarrow> ('a \<Rightarrow> 'b res) \<Rightarrow> 'b res" where
  "bind m f = (case m of Ret x \<Rightarrow> f x | Throw e \<Rightarrow> Throw e | Diverge \<Rightarrow> Diverge)"

text \<open>A \<^verbatim>\<open>for ... of\<close> loop whose body updates the loop state and may throw.\<close>

fun foldM :: "('s \<Rightarrow> 'a \<Rightarrow> 's res) \<Rightarrow> 's \<Rightarrow> 'a list \<Rightarrow> 's res" where
  "foldM f s [] = Ret s"
| "foldM f s (x # xs) = bind (f s x) (\<lambda>s'. foldM f s' xs)"

text \<open>\<^verbatim>\<open>xs.map(f)\<close> for a callback that may throw: the first failure ends the map.\<close>

fun mapM :: "('a \<Rightarrow> 'b res) \<Rightarrow> 'a list \<Rightarrow> 'b list res" where
  "mapM f [] = Ret []"
| "mapM f (x # xs) = bind (f x) (\<lambda>y. bind (mapM f xs) (\<lambda>ys. Ret (y # ys)))"

text \<open>The same for a callback that also updates the emitter context.\<close>

fun mapM_st :: "('s \<Rightarrow> 'a \<Rightarrow> ('b \<times> 's) res) \<Rightarrow> 's \<Rightarrow> 'a list \<Rightarrow> ('b list \<times> 's) res" where
  "mapM_st f s [] = Ret ([], s)"
| "mapM_st f s (x # xs) =
     bind (f s x) (\<lambda>(y, s'). bind (mapM_st f s' xs) (\<lambda>(ys, s''). Ret (y # ys, s'')))"

section \<open>JSON values and the helpers shared by both emitters\<close>

datatype json =
    JNull
  | JBool bool
  | JNum number
  | JStr string
  | JArr "json list"
  | JObj "(string \<times> json) list"

text \<open>Reading a property: \<^verbatim>\<open>s.type\<close> is \<open>field s ''type''\<close>, \<open>None\<close> for \<^verbatim>\<open>undefined\<close>.\<close>

fun field :: "json \<Rightarrow> string \<Rightarrow> json option" where
  "field (JObj kvs) k = map_of kvs k"
| "field _ k = None"

fun literalJson :: "Literal \<Rightarrow> json" where
  "literalJson (LString s) = JStr s"
| "literalJson (LNumber n) = JNum n"
| "literalJson (LBoolean b) = JBool b"

fun primitiveToSchema :: "PrimitiveName \<Rightarrow> json" where
  "primitiveToSchema PString = JObj [(''type'', JStr ''string'')]"
| "primitiveToSchema PTypedoc = JObj [(''type'', JStr ''string'')]"
| "primitiveToSchema PImage = JObj [(''type'', JStr ''string'')]"
| "primitiveToSchema PAudio = JObj [(''type'', JStr ''string'')]"
| "primitiveToSchema PVideo = JObj [(''type'', JStr ''string'')]"
| "primitiveToSchema PNumber = JObj [(''type'', JStr ''number'')]"
| "primitiveToSchema PBoolean = JObj [(''type'', JStr ''boolean'')]"
| "primitiveToSchema PNever =
     JObj [(''type'', JStr ''number''), (''minimum'', JNum 1), (''maximum'', JNum 0)]"

definition arrayOf :: "json \<Rightarrow> json" where
  "arrayOf item = JObj [(''type'', JStr ''array''), (''items'', item)]"

text \<open>
  \<^verbatim>\<open>{ ...schema, type: v }\<close>: the entries of \<open>schema\<close>, with \<open>type\<close> set to \<open>v\<close>.
\<close>

fun spreadWithType :: "json \<Rightarrow> json \<Rightarrow> json" where
  "spreadWithType (JObj kvs) v = JObj (AList.update ''type'' v kvs)"
| "spreadWithType _ v = JObj [(''type'', v)]"

text \<open>
  \<^verbatim>\<open>o[k] = v\<close> for an object \<open>o\<close> that was created as \<^verbatim>\<open>{}\<close>, as the emitters' \<^verbatim>\<open>properties\<close>
  are. Such an object inherits the accessor \<^verbatim>\<open>__proto__\<close> from \<^verbatim>\<open>Object.prototype\<close>: an
  assignment to this key calls the setter, which replaces the prototype of \<open>o\<close> when
  \<open>v\<close> is an object (every schema is one) and does nothing otherwise. In both cases
  \<open>o\<close> gets no own property, so the entries that \<^verbatim>\<open>JSON.stringify\<close> prints are
  unchanged. Every other key is created, or overwritten in place.
\<close>

definition setProperty :: "string \<Rightarrow> json \<Rightarrow> (string \<times> json) list \<Rightarrow> (string \<times> json) list" where
  "setProperty k v obj = (if k = ''__proto__'' then obj else AList.update k v obj)"

definition makeNullable :: "json \<Rightarrow> json" where
  "makeNullable schema =
     (case field schema ''type'' of
        Some (JStr t) \<Rightarrow> spreadWithType schema (JArr [JStr t, JStr ''null''])
      | Some (JArr t) \<Rightarrow>
          (if JStr ''null'' \<notin> set t then spreadWithType schema (JArr (t @ [JStr ''null'']))
           else schema)
      | _ \<Rightarrow> JObj [(''anyOf'', JArr [schema, JObj [(''type'', JStr ''null'')]])])"

fun isScalarLiteral :: "TypeNode \<Rightarrow> bool" where
  "isScalarLiteral (StringLiteral v) = True"
| "isScalarLiteral (NumberLiteral v) = True"
| "isScalarLiteral (BooleanLiteral v) = True"
| "isScalarLiteral _ = False"

fun literalValue :: "TypeNode \<Rightarrow> Literal res" where
  "literalValue (StringLiteral v) = Ret (LString v)"
| "literalValue (NumberLiteral v) = Ret (LNumber v)"
| "literalValue (BooleanLiteral v) = Ret (LBoolean v)"
| "literalValue _ = Throw NotALiteral"

fun typeof :: "Literal \<Rightarrow> string" where
  "typeof (LString s) = ''string''"
| "typeof (LNumber n) = ''number''"
| "typeof (LBoolean b) = ''boolean''"

definition unionLiteralType :: "Literal list \<Rightarrow> string option" where
  "unionLiteralType values =
     (let tys = remdups (map typeof values) in
      if length tys = 1 then
        (let t = hd tys in
         if t = ''string'' \<or> t = ''number'' \<or> t = ''boolean'' then Some t else None)
      else None)"

text \<open>
  \<^verbatim>\<open>isNeverSchema\<close> of the OpenAI emitter; the Gemini emitter has the same test under the
  name \<^verbatim>\<open>isNever\<close>.
\<close>

definition isNeverSchema :: "json \<Rightarrow> bool" where
  "isNeverSchema s =
     (field s ''type'' = Some (JStr ''number'') \<and>
      (case (field s ''minimum'', field s ''maximum'') of
         (Some (JNum lo), Some (JNum hi)) \<Rightarrow> lo > hi
       | _ \<Rightarrow> False))"

text \<open>
  \<^verbatim>\<open>String(key)\<close> for an enum key. The printing of a number belongs to the JavaScript
  runtime and is the parameter \<open>S\<close>.
\<close>

fun literalString :: "(number \<Rightarrow> string) \<Rightarrow> Literal \<Rightarrow> string" where
  "literalString S (LString s) = s"
| "literalString S (LNumber n) = S n"
| "literalString S (LBoolean b) = (if b then ''true'' else ''false'')"

section \<open>Intersection merging\<close>

text \<open>
  Each emitter owns a definition table \<open>defs\<close> and the set \<open>stack\<close> of the names
  being emitted. Both emitter classes have these same three members.
\<close>

record EmitCtx =
  doc :: TDLDoc
  defs :: "(string \<times> json) list"
  stack :: "string set"

text \<open>
  \<^verbatim>\<open>mergeObjects\<close> and \<^verbatim>\<open>resolveObject\<close> occur with the same text in both emitter
  files. The recursion of \<^verbatim>\<open>resolveObject\<close> through the named-type table is not guarded,
  so it is bounded here by fuel: \<open>Diverge\<close> is returned when the fuel is used up.
\<close>

fun mergeObjects :: "nat \<Rightarrow> EmitCtx \<Rightarrow> TypeNode list \<Rightarrow> ObjectNode res"
and resolveObject :: "nat \<Rightarrow> EmitCtx \<Rightarrow> TypeNode \<Rightarrow> ObjectNode res" where
  "mergeObjects 0 ctx parts = Diverge"
| "mergeObjects (Suc n) ctx parts =
     bind
       (foldM
          (\<lambda>(outProps, outIdx, cl) p.
             bind (resolveObject n ctx p) (\<lambda>obj.
               Ret (fold (\<lambda>ip m. AList.update (p_name ip) ip m) (o_props obj) outProps,
                    outIdx @ o_indexSigs obj,
                    cl \<or> o_closed obj)))
          ([], [], False) parts)
       (\<lambda>(outProps, outIdx, cl).
          Ret \<lparr>o_props = map snd outProps, o_indexSigs = outIdx, o_closed = cl\<rparr>)"
| "resolveObject 0 ctx node = Diverge"
| "resolveObject (Suc n) ctx node =
     (case node of
        Object ps sigs cl \<Rightarrow> Ret \<lparr>o_props = ps, o_indexSigs = sigs, o_closed = cl\<rparr>
      | TypeRef name \<Rightarrow>
          (case map_of (types (doc ctx)) name of
             None \<Rightarrow> Throw (UnknownType name)
           | Some def \<Rightarrow> resolveObject n ctx (td_node def))
      | Intersection members \<Rightarrow> mergeObjects n ctx members
      | _ \<Rightarrow> Throw OperandsMustBeObjectLike)"

section \<open>The OpenAI emitter (schema-openai.ts)\<close>

definition placeholderOpenAI :: json where
  "placeholderOpenAI =
     JObj [(''type'', JStr ''object''), (''properties'', JObj []), (''required'', JArr []),
           (''additionalProperties'', JBool False)]"

fun ensureDefOpenAI :: "(number \<Rightarrow> string) \<Rightarrow> nat \<Rightarrow> EmitCtx \<Rightarrow> string \<Rightarrow> EmitCtx res"
and emitOpenAI :: "(number \<Rightarrow> string) \<Rightarrow> nat \<Rightarrow> EmitCtx \<Rightarrow> TypeNode \<Rightarrow> (json \<times> EmitCtx) res"
and emitObjectOpenAI ::
  "(number \<Rightarrow> string) \<Rightarrow> nat \<Rightarrow> EmitCtx \<Rightarrow> ObjectNode \<Rightarrow> (json \<times> EmitCtx) res" where
  "ensureDefOpenAI S 0 ctx name = Diverge"
| "ensureDefOpenAI S (Suc n) ctx name =
     (if name \<in> set (map fst (defs ctx)) then Ret ctx
      else if name \<in> stack ctx then
        Ret (ctx\<lparr>defs := AList.update name placeholderOpenAI (defs ctx)\<rparr>)
      else
        (case map_of (types (doc ctx)) name of
           None \<Rightarrow> Throw (UnknownTypeReference name)
         | Some def \<Rightarrow>
             bind (emitOpenAI S n (ctx\<lparr>stack := insert name (stack ctx)\<rparr>) (td_node def))
               (\<lambda>(schema, ctx').
                  Ret (ctx'\<lparr>stack := stack ctx' - {name},
                            defs := AList.update name schema (defs ctx')\<rparr>))))"
| "emitOpenAI S 0 ctx node = Diverge"
| "emitOpenAI S (Suc n) ctx node =
     (case node of
        Primitive name \<Rightarrow> Ret (primitiveToSchema name, ctx)
      | StringLiteral v \<Rightarrow>
          Ret (JObj [(''type'', JStr ''string''), (''enum'', JArr [JStr v])], ctx)
      | NumberLiteral v \<Rightarrow>
          Ret (JObj [(''type'', JStr ''number''), (''enum'', JArr [JNum v])], ctx)
      | BooleanLiteral v \<Rightarrow>
          Ret (JObj [(''type'', JStr ''boolean''), (''enum'', JArr [JBool v])], ctx)
      | TypeRef name \<Rightarrow>
          bind (ensureDefOpenAI S n ctx name)
            (\<lambda>ctx'. Ret (JObj [(''$ref'', JStr (''#/$defs/'' @ name))], ctx'))
      | UnionT members \<Rightarrow>
          (if list_all isScalarLiteral members then
             bind (mapM literalValue members) (\<lambda>enums.
               let base = [(''enum'', JArr (map literalJson enums))] in
               Ret (JObj (case unionLiteralType enums of
                            Some t \<Rightarrow> AList.update ''type'' (JStr t) base
                          | None \<Rightarrow> base), ctx))
           else
             bind (mapM_st (emitOpenAI S n) ctx members)
               (\<lambda>(schemas, ctx'). Ret (JObj [(''anyOf'', JArr schemas)], ctx')))
      | Intersection members \<Rightarrow>
          bind (mergeObjects n ctx members) (\<lambda>obj. emitObjectOpenAI S n ctx obj)
      | Object ps sigs cl \<Rightarrow>
          emitObjectOpenAI S n ctx \<lparr>o_props = ps, o_indexSigs = sigs, o_closed = cl\<rparr>)"
| "emitObjectOpenAI S 0 ctx obj = Diverge"
| "emitObjectOpenAI S (Suc n) ctx obj =
     bind
       (foldM
          (\<lambda>(c, properties, required) idx.
             if i_kind idx = KString then
               (if i_optional idx then
                  bind (emitOpenAI S n c (i_valueType idx)) (\<lambda>(s, c').
                    if isNeverSchema s then Ret (c', properties, required)
                    else Throw StringIndexSignaturesNotSupported)
                else Throw StringIndexSignaturesNotSupported)
             else
               foldM
                 (\<lambda>(c, properties, required) key.
                    let keyName = literalString S key in
                    bind (emitOpenAI S n c (i_valueType idx)) (\<lambda>(base, c').
                      let withArray = (if i_isArray idx then arrayOf base else base) in
                      Ret (c',
                           setProperty keyName
                             (if i_optional idx then makeNullable withArray else withArray)
                             properties,
                           required @ [keyName])))
                 (c, properties, required)
                 (case i_keys idx of None \<Rightarrow> [] | Some ks \<Rightarrow> ks))
          (ctx, [], []) (o_indexSigs obj))
       (\<lambda>(c, properties, required).
          bind
            (foldM
               (\<lambda>(c, properties, required) p.
                  bind (emitOpenAI S n c (p_type p)) (\<lambda>(base, c').
                    let withArray = (if p_isArray p then arrayOf base else base) in
                    Ret (c',
                         setProperty (p_name p)
                           (if p_optional p then makeNullable withArray else withArray)
                           properties,
                         required @ [p_name p])))
               (c, properties, required) (o_props obj))
            (\<lambda>(c, properties, required).
               Ret (JObj [(''type'', JStr ''object''),
                          (''properties'', JObj properties),
                          (''required'', JArr (map JStr required)),
                          (''additionalProperties'', JBool False)], c)))"

definition generateOpenAISchema :: "(number \<Rightarrow> string) \<Rightarrow> nat \<Rightarrow> TDLDoc \<Rightarrow> json res" where
  "generateOpenAISchema S fuel d =
     bind (foldM (ensureDefOpenAI S fuel) \<lparr>doc = d, defs = [], stack = {}\<rparr> (map fst (types d)))
       (\<lambda>ctx.
          bind
            (foldM
               (\<lambda>(c, properties, required) sym.
                  bind (emitOpenAI S fuel c (s_type sym)) (\<lambda>(baseSchema, c').
                    let withArray = (if s_isArray sym then arrayOf baseSchema else baseSchema);
                        finalSchema = (if s_optional sym then makeNullable withArray else withArray)
                    in Ret (c', setProperty (s_name sym) finalSchema properties,
                            required @ [s_name sym])))
               (ctx, [], []) (symbols d))
            (\<lambda>(c, properties, required).
               Ret (JObj [(''type'', JStr ''object''),
                          (''properties'', JObj properties),
                          (''required'', JArr (map JStr required)),
                          (''additionalProperties'', JBool False),
                          (''$defs'', JObj (defs c))])))"

section \<open>The Gemini emitter (schema-gemini.ts)\<close>

definition placeholderGemini :: json where
  "placeholderGemini =
     JObj [(''type'', JStr ''object''), (''properties'', JObj []), (''required'', JArr []),
           (''additionalProperties'', JBool True)]"

fun ensureDefGemini :: "(number \<Rightarrow> string) \<Rightarrow> nat \<Rightarrow> EmitCtx \<Rightarrow> string \<Rightarrow> EmitCtx res"
and emitGemini :: "(number \<Rightarrow> string) \<Rightarrow> nat \<Rightarrow> EmitCtx \<Rightarrow> TypeNode \<Rightarrow> (json \<times> EmitCtx) res"
and emitObjectGemini ::
  "(number \<Rightarrow> string) \<Rightarrow> nat \<Rightarrow> EmitCtx \<Rightarrow> ObjectNode \<Rightarrow> (json \<times> EmitCtx) res" where
  "ensureDefGemini S 0 ctx name = Diverge"
| "ensureDefGemini S (Suc n) ctx name =
     (if name \<in> set (map fst (defs ctx)) then Ret ctx
      else if name \<in> stack ctx then
        Ret (ctx\<lparr>defs := AList.update name placeholderGemini (defs ctx)\<rparr>)
      else
        (case map_of (types (doc ctx)) name of
           None \<Rightarrow> Throw (UnknownTypeReference name)
         | Some def \<Rightarrow>
             bind (emitGemini S n (ctx\<lparr>stack := insert name (stack ctx)\<rparr>) (td_node def))
               (\<lambda>(schema, ctx').
                  Ret (ctx'\<lparr>stack := stack ctx' - {name},
                            defs := AList.update name schema (defs ctx')\<rparr>))))"
| "emitGemini S 0 ctx node = Diverge"
| "emitGemini S (Suc n) ctx node =
     (case node of
        Primitive name \<Rightarrow> Ret (primitiveToSchema name, ctx)
      | StringLiteral v \<Rightarrow>
          Ret (JObj [(''type'', JStr ''string''), (''enum'', JArr [JStr v])], ctx)
      | NumberLiteral v \<Rightarrow>
          Ret (JObj [(''type'', JStr ''number''), (''enum'', JArr [JNum v])], ctx)
      | BooleanLiteral v \<Rightarrow>
          Ret (JObj [(''type'', JStr ''boolean''), (''enum'', JArr [JBool v])], ctx)
      | TypeRef name \<Rightarrow>
          bind (ensureDefGemini S n ctx name)
            (\<lambda>ctx'. Ret (JObj [(''$ref'', JStr (''#/$defs/'' @ name))], ctx'))
      | UnionT members \<Rightarrow>
          (if list_all isScalarLiteral members then
             bind (mapM literalValue members) (\<lambda>enums.
               let base = [(''enum'', JArr (map literalJson enums))] in
               Ret (JObj (case unionLiteralType enums of
                            Some t \<Rightarrow> AList.update ''type'' (JStr t) base
                          | None \<Rightarrow> base), ctx))
           else
             bind (mapM_st (emitGemini S n) ctx members)
               (\<lambda>(schemas, ctx'). Ret (JObj [(''anyOf'', JArr schemas)], ctx')))
      | Intersection members \<Rightarrow>
          bind (mergeObjects n ctx members) (\<lambda>obj. emitObjectGemini S n ctx obj)
      | Object ps sigs cl \<Rightarrow>
          emitObjectGemini S n ctx \<lparr>o_props = ps, o_indexSigs = sigs, o_closed = cl\<rparr>)"
| "emitObjectGemini S 0 ctx obj = Diverge"
| "emitObjectGemini S (Suc n) ctx obj =
     bind
       (foldM
          (\<lambda>(c, properties, required, additionalProps) idx.
             if i_kind idx = KString then
               (if i_optional idx then
                  bind (emitGemini S n c (i_valueType idx)) (\<lambda>(s, c').
                    if isNeverSchema s then Ret (c', properties, required, JBool False)
                    else
                      bind (emitGemini S n c' (i_valueType idx)) (\<lambda>(base, c'').
                        let valSchema = (if i_isArray idx then arrayOf base else base) in
                        Ret (c'', properties, required, valSchema)))
                else
                  bind (emitGemini S n c (i_valueType idx)) (\<lambda>(base, c'').
                    let valSchema = (if i_isArray idx then arrayOf base else base) in
                    Ret (c'', properties, required, valSchema)))
             else
               foldM
                 (\<lambda>(c, properties, required, additionalProps) key.
                    let keyName = literalString S key in
                    bind (emitGemini S n c (i_valueType idx)) (\<lambda>(base, c').
                      let withArray = (if i_isArray idx then arrayOf base else base) in
                      Ret (c',
                           setProperty keyName withArray properties,
                           (if \<not> i_optional idx then required @ [keyName] else required),
                           additionalProps)))
                 (c, properties, required, additionalProps)
                 (case i_keys idx of None \<Rightarrow> [] | Some ks \<Rightarrow> ks))
          (ctx, [], [], JBool (\<not> o_closed obj)) (o_indexSigs obj))
       (\<lambda>(c, properties, required, additionalProps).
          bind
            (foldM
               (\<lambda>(c, properties, required) p.
                  bind (emitGemini S n c (p_type p)) (\<lambda>(base, c').
                    let withArray = (if p_isArray p then arrayOf base else base) in
                    Ret (c',
                         setProperty (p_name p) withArray properties,
                         (if \<not> p_optional p then required @ [p_name p] else required))))
               (c, properties, required) (o_props obj))
            (\<lambda>(c, properties, required).
               Ret (JObj [(''type'', JStr ''object''),
                          (''properties'', JObj properties),
                          (''required'', JArr (map JStr required)),
                          (''additionalProperties'', additionalProps)], c)))"

definition generateGeminiSchema :: "(number \<Rightarrow> string) \<Rightarrow> nat \<Rightarrow> TDLDoc \<Rightarrow> json res" where
  "generateGeminiSchema S fuel d =
     bind (foldM (ensureDefGemini S fuel) \<lparr>doc = d, defs = [], stack = {}\<rparr> (map fst (types d)))
       (\<lambda>ctx.
          bind
            (foldM
               (\<lambda>(c, properties, required) sym.
                  bind (emitGemini S fuel c (s_type sym)) (\<lambda>(base, c').
                    let withArray = (if s_isArray sym then arrayOf base else base) in
                    Ret (c', setProperty (s_name sym) withArray properties,
                         (if \<not> s_optional sym then required @ [s_name sym] else required))))
               (ctx, [], []) (symbols d))
            (\<lambda>(c, properties, required).
               Ret (JObj [(''type'', JStr ''object''),
                          (''properties'', JObj properties),
                          (''required'', JArr (map JStr required)),
                          (''additionalProperties'', JBool False),
                          (''$defs'', JObj (defs c))])))"

section \<open>Sample inputs\<close>

text \<open>
  The theorems hold for every printing function \<open>S\<close>. The examples use the decimal
  printing of integers, with which the runtime agrees below \<open>10\<^sup>2\<^sup>1\<close>.
\<close>

fun digits :: "nat \<Rightarrow> string" where
  "digits n = (if n < 10 then [''0123456789'' ! n] else digits (n div 10) @ [''0123456789'' ! (n mod 10)])"

definition integerString :: "number \<Rightarrow> string" where
  "integerString x = (if x < 0 then ''-'' @ digits (nat \<lfloor>- x\<rfloor>) else digits (nat \<lfloor>x\<rfloor>))"

definition emptyCtx :: EmitCtx where
  "emptyCtx = \<lparr>doc = \<lparr>types = [], symbols = [], meta = []\<rparr>, defs = [], stack = {}\<rparr>"

section \<open>Basic facts\<close>

lemma bind_Ret_iff: "bind m f = Ret y \<longleftrightarrow> (\<exists>x. m = Ret x \<and> f x = Ret y)"
  by (cases m) (simp_all add: bind_def)

lemma bind_simps: "bind (Ret x) f = f x" "bind (Throw e) f = Throw e" "bind Diverge f = Diverge"
  by (simp_all add: bind_def)

lemma mapM_literalValue_all:
  "mapM literalValue ms = Ret ls \<Longrightarrow> list_all isScalarLiteral ms"
  apply (induction ms arbitrary: ls)
   apply simp
  subgoal for m ms ls
    by (cases m) (auto simp: bind_Ret_iff bind_simps)
  done

lemma remdups_single:
  assumes "xs \<noteq> []" "set xs \<subseteq> {a}"
  shows "remdups xs = [a]"
proof -
  have s: "set xs = {a}" using assms by (cases xs) fastforce+
  then have "card (set (remdups xs)) = 1" by simp
  moreover have "distinct (remdups xs)" by simp
  ultimately have "length (remdups xs) = 1" using distinct_card by fastforce
  then obtain y where y: "remdups xs = [y]" by (cases "remdups xs") auto
  then have "set xs = {y}" by (metis empty_set list.simps(15) set_remdups)
  with s have "y = a" by blast
  with y show ?thesis by simp
qed

lemma length_remdups_one:
  assumes "length (remdups xs) = Suc 0"
  shows "xs \<noteq> [] \<and> set xs \<subseteq> {hd xs}"
proof -
  have "card (set xs) = 1" using assms by (simp add: length_remdups_card_conv)
  then obtain a where a: "set xs = {a}" by (auto simp: card_1_singleton_iff)
  then have ne: "xs \<noteq> []" by auto
  then have "hd xs \<in> set xs" by simp
  with a have "hd xs = a" by blast
  with a ne show ?thesis by blast
qed

lemma typeof_cases: "typeof l = ''string'' \<or> typeof l = ''number'' \<or> typeof l = ''boolean''"
  by (cases l) auto

lemma unionLiteralType_same:
  assumes "ls \<noteq> []" "\<forall>l\<in>set ls. typeof l = t"
  shows "unionLiteralType ls = Some t"
proof -
  have "set (map typeof ls) \<subseteq> {t}" using assms(2) by auto
  then have r: "remdups (map typeof ls) = [t]"
    using assms(1) by (intro remdups_single) simp_all
  obtain l where "l \<in> set ls" using assms(1) by (cases ls) auto
  then have "typeof l = t" using assms(2) by blast
  then have "t = ''string'' \<or> t = ''number'' \<or> t = ''boolean''"
    using typeof_cases[of l] by simp
  then show ?thesis unfolding unionLiteralType_def r by auto
qed

lemma unionLiteralType_Some:
  assumes "unionLiteralType ls = Some t"
  shows "ls \<noteq> [] \<and> (\<forall>l\<in>set ls. typeof l = t)"
proof -
  have l: "length (remdups (map typeof ls)) = Suc 0"
    using assms unfolding unionLiteralType_def Let_def by (auto split: if_splits)
  have t: "t = hd (remdups (map typeof ls))"
    using assms unfolding unionLiteralType_def Let_def by (auto split: if_splits)
  from length_remdups_one[OF l]
  have ne: "map typeof ls \<noteq> []" and al: "set (map typeof ls) \<subseteq> {hd (map typeof ls)}"
    by blast+
  have "remdups (map typeof ls) = [hd (map typeof ls)]"
    using ne al by (rule remdups_single)
  with t have "t = hd (map typeof ls)" by simp
  with ne al show ?thesis by auto
qed

lemma unionLiteralType_None:
  assumes "unionLiteralType ls = None"
  shows "ls = [] \<or> (\<exists>l\<in>set ls. typeof l \<noteq> typeof (hd ls))"
proof (rule ccontr)
  assume "\<not> ?thesis"
  then have "ls \<noteq> []" "\<forall>l\<in>set ls. typeof l = typeof (hd ls)" by blast+
  then have "unionLiteralType ls = Some (typeof (hd ls))" by (rule unionLiteralType_same)
  with assms show False by simp
qed

lemma mapM_literalValue_iff:
  "list_all isScalarLiteral ms \<longleftrightarrow> (\<exists>ls. mapM literalValue ms = Ret ls)"
proof (induction ms)
  case Nil
  then show ?case by simp
next
  case (Cons m ms)
  then show ?case by (cases m) (auto simp: bind_Ret_iff bind_simps)
qed

section \<open>Unions\<close>

text \<open>
  C4 (amended). A union all of whose members are scalar literals is emitted by both
  emitters as an \<open>enum\<close> of the literal values in member order. The \<open>type\<close> entry is
  added when the literals share one JSON type \<open>t\<close>; when their types differ (or there is no
  member) the schema has the \<open>enum\<close> entry alone and no \<open>anyOf\<close>. A union with a
  member that is not a scalar literal is emitted as \<open>anyOf\<close> of the member schemas, emitted
  from left to right.
\<close>

theorem union_emission:
  "(mapM literalValue ms1 = Ret ls1 \<and> ls1 \<noteq> [] \<and> list_all (\<lambda>l. typeof l = t) ls1 \<longrightarrow>
      emitOpenAI S (Suc n) ctx (UnionT ms1) =
        Ret (JObj [(''enum'', JArr (map literalJson ls1)), (''type'', JStr t)], ctx) \<and>
      emitGemini S (Suc n) ctx (UnionT ms1) =
        Ret (JObj [(''enum'', JArr (map literalJson ls1)), (''type'', JStr t)], ctx)) \<and>
   (mapM literalValue ms2 = Ret ls2 \<and>
      (ls2 = [] \<or> (l \<in> set ls2 \<and> l' \<in> set ls2 \<and> typeof l \<noteq> typeof l')) \<longrightarrow>
      emitOpenAI S (Suc n) ctx (UnionT ms2) =
        Ret (JObj [(''enum'', JArr (map literalJson ls2))], ctx) \<and>
      emitGemini S (Suc n) ctx (UnionT ms2) =
        Ret (JObj [(''enum'', JArr (map literalJson ls2))], ctx)) \<and>
   (\<not> list_all isScalarLiteral ms3 \<longrightarrow>
      emitOpenAI S (Suc n) ctx (UnionT ms3) =
        bind (mapM_st (emitOpenAI S n) ctx ms3)
          (\<lambda>(schemas, ctx'). Ret (JObj [(''anyOf'', JArr schemas)], ctx')) \<and>
      emitGemini S (Suc n) ctx (UnionT ms3) =
        bind (mapM_st (emitGemini S n) ctx ms3)
          (\<lambda>(schemas, ctx'). Ret (JObj [(''anyOf'', JArr schemas)], ctx')))"
proof (intro conjI impI)
  assume a: "mapM literalValue ms1 = Ret ls1 \<and> ls1 \<noteq> [] \<and> list_all (\<lambda>l. typeof l = t) ls1"
  then have lit: "list_all isScalarLiteral ms1" by (auto simp: mapM_literalValue_iff)
  from a have "unionLiteralType ls1 = Some t"
    by (intro unionLiteralType_same) (auto simp: list_all_iff)
  with a lit show "emitOpenAI S (Suc n) ctx (UnionT ms1) =
        Ret (JObj [(''enum'', JArr (map literalJson ls1)), (''type'', JStr t)], ctx)"
    and "emitGemini S (Suc n) ctx (UnionT ms1) =
        Ret (JObj [(''enum'', JArr (map literalJson ls1)), (''type'', JStr t)], ctx)"
    by (simp_all add: bind_simps)
next
  assume a: "mapM literalValue ms2 = Ret ls2 \<and>
      (ls2 = [] \<or> (l \<in> set ls2 \<and> l' \<in> set ls2 \<and> typeof l \<noteq> typeof l'))"
  then have lit: "list_all isScalarLiteral ms2" by (auto simp: mapM_literalValue_iff)
  have "unionLiteralType ls2 = None"
  proof (cases "unionLiteralType ls2")
    case (Some u)
    from unionLiteralType_Some[OF this] a show ?thesis by metis
  qed simp
  with a lit show "emitOpenAI S (Suc n) ctx (UnionT ms2) =
        Ret (JObj [(''enum'', JArr (map literalJson ls2))], ctx)"
    and "emitGemini S (Suc n) ctx (UnionT ms2) =
        Ret (JObj [(''enum'', JArr (map literalJson ls2))], ctx)"
    by (simp_all add: bind_simps)
next
  assume "\<not> list_all isScalarLiteral ms3"
  then show "emitOpenAI S (Suc n) ctx (UnionT ms3) =
        bind (mapM_st (emitOpenAI S n) ctx ms3)
          (\<lambda>(schemas, ctx'). Ret (JObj [(''anyOf'', JArr schemas)], ctx'))"
    and "emitGemini S (Suc n) ctx (UnionT ms3) =
        bind (mapM_st (emitGemini S n) ctx ms3)
          (\<lambda>(schemas, ctx'). Ret (JObj [(''anyOf'', JArr schemas)], ctx'))"
    by simp_all
qed

theorem union_emission_witness:
  "emitOpenAI integerString (Suc (Suc 0)) emptyCtx (UnionT [StringLiteral ''a'', StringLiteral ''b'']) =
     Ret (JObj [(''enum'', JArr [JStr ''a'', JStr ''b'']), (''type'', JStr ''string'')], emptyCtx) \<and>
   emitGemini integerString (Suc (Suc 0)) emptyCtx (UnionT [StringLiteral ''a'', StringLiteral ''b'']) =
     Ret (JObj [(''enum'', JArr [JStr ''a'', JStr ''b'']), (''type'', JStr ''string'')], emptyCtx) \<and>
   emitOpenAI integerString (Suc (Suc 0)) emptyCtx (UnionT [StringLiteral ''a'', NumberLiteral 1]) =
     Ret (JObj [(''enum'', JArr [JStr ''a'', JNum 1])], emptyCtx) \<and>
   emitGemini integerString (Suc (Suc 0)) emptyCtx (UnionT [StringLiteral ''a'', NumberLiteral 1]) =
     Ret (JObj [(''enum'', JArr [JStr ''a'', JNum 1])], emptyCtx) \<and>
   emitOpenAI integerString (Suc (Suc 0)) emptyCtx (UnionT [Primitive PNumber, StringLiteral ''a'']) =
     Ret (JObj [(''anyOf'', JArr [JObj [(''type'', JStr ''number'')],
                                  JObj [(''type'', JStr ''string''), (''enum'', JArr [JStr ''a''])]])], emptyCtx) \<and>
   emitGemini integerString (Suc (Suc 0)) emptyCtx (UnionT [Primitive PNumber, StringLiteral ''a'']) =
     Ret (JObj [(''anyOf'', JArr [JObj [(''type'', JStr ''number'')],
                                  JObj [(''type'', JStr ''string''), (''enum'', JArr [JStr ''a''])]])], emptyCtx)"
  using union_emission[of "[StringLiteral ''a'', StringLiteral ''b'']" "[LString ''a'', LString ''b'']" "''string''"
      integerString "Suc 0" emptyCtx
      "[StringLiteral ''a'', NumberLiteral 1]" "[LString ''a'', LNumber 1]" "LString ''a''" "LNumber 1"
      "[Primitive PNumber, StringLiteral ''a'']"]
  by (simp add: bind_simps)

text \<open>
  The union \<open>'a' | 1\<close> consists of literals of two JSON types: both emitters return
  an \<open>enum\<close> without \<open>type\<close>, not an \<open>anyOf\<close>.
\<close>

theorem union_mixed_literals_counterexample:
  "emitOpenAI integerString (Suc 0) emptyCtx (UnionT [StringLiteral ''a'', NumberLiteral 1]) =
     Ret (JObj [(''enum'', JArr [JStr ''a'', JNum 1])], emptyCtx) \<and>
   emitGemini integerString (Suc 0) emptyCtx (UnionT [StringLiteral ''a'', NumberLiteral 1]) =
     Ret (JObj [(''enum'', JArr [JStr ''a'', JNum 1])], emptyCtx) \<and>
   unionLiteralType [LString ''a'', LNumber 1] = None"
  by (simp add: bind_simps unionLiteralType_def)

section \<open>Object schemas of the OpenAI output\<close>

text \<open>
  \<open>allObjects P j\<close>: every JSON object inside \<open>j\<close>, at any depth and \<open>j\<close> itself included,
  satisfies \<open>P\<close>. An object schema is a JSON object whose \<open>type\<close> is \<open>"object"\<close>, or a
  list of types with \<open>"object"\<close> among them (the nullable form).
\<close>

fun allObjects :: "((string \<times> json) list \<Rightarrow> bool) \<Rightarrow> json \<Rightarrow> bool" where
  "allObjects P (JObj kvs) = (P kvs \<and> list_all (allObjects P) (map snd kvs))"
| "allObjects P (JArr xs) = list_all (allObjects P) xs"
| "allObjects P _ = True"

definition isObjectSchema :: "(string \<times> json) list \<Rightarrow> bool" where
  "isObjectSchema kvs =
     (case map_of kvs ''type'' of
        Some (JStr t) \<Rightarrow> t = ''object''
      | Some (JArr ts) \<Rightarrow> JStr ''object'' \<in> set ts
      | _ \<Rightarrow> False)"

definition openaiObjectOK :: "(string \<times> json) list \<Rightarrow> bool" where
  "openaiObjectOK kvs =
     (case (map_of kvs ''properties'', map_of kvs ''required'', map_of kvs ''additionalProperties'') of
        (Some (JObj ps), Some (JArr req), Some (JBool False)) \<Rightarrow>
          set req - {JStr ''__proto__''} = set (map (JStr \<circ> fst) ps)
      | _ \<Rightarrow> False)"

lemma foldM_invariant:
  assumes "foldM f s xs = Ret s'" "I s"
    and "\<And>s x s1. x \<in> set xs \<Longrightarrow> I s \<Longrightarrow> f s x = Ret s1 \<Longrightarrow> I s1"
  shows "I s'"
  using assms
proof (induction xs arbitrary: s)
  case Nil
  then show ?case by simp
next
  case (Cons x xs)
  from Cons.prems(1) obtain s1 where s1: "f s x = Ret s1" "foldM f s1 xs = Ret s'"
    by (auto simp: bind_Ret_iff)
  have "I s1" using Cons.prems(3)[of x s s1] Cons.prems(2) s1 by simp
  then show ?case
  proof (rule Cons.IH[OF s1(2)])
    fix t z t1
    assume "z \<in> set xs" "I t" "f t z = Ret t1"
    then show "I t1" using Cons.prems(3)[of z t t1] by simp
  qed
qed

lemma mapM_st_invariant:
  assumes "mapM_st f s xs = Ret (ys, s')" "I s"
    and "\<And>s x y s1. x \<in> set xs \<Longrightarrow> I s \<Longrightarrow> f s x = Ret (y, s1) \<Longrightarrow> I s1 \<and> Q y"
  shows "I s' \<and> list_all Q ys"
  using assms
proof (induction xs arbitrary: s ys)
  case Nil
  then show ?case by simp
next
  case (Cons x xs)
  from Cons.prems(1) obtain y s1 ys1 where s1: "f s x = Ret (y, s1)" "mapM_st f s1 xs = Ret (ys1, s')" "ys = y # ys1"
    by (auto simp: bind_Ret_iff)
  have 1: "I s1 \<and> Q y" using Cons.prems(3)[of x s y s1] Cons.prems(2) s1 by simp
  have "I s' \<and> list_all Q ys1"
  proof (rule Cons.IH[OF s1(2)])
    show "I s1" using 1 by simp
  next
    fix t z w t1
    assume "z \<in> set xs" "I t" "f t z = Ret (w, t1)"
    then show "I t1 \<and> Q w" using Cons.prems(3)[of z t w t1] by simp
  qed
  with 1 s1(3) show ?case by simp
qed

definition schemaInv :: "((string \<times> json) list \<Rightarrow> bool) \<Rightarrow> json \<Rightarrow> bool" where
  "schemaInv Q s = ((\<exists>kvs. s = JObj kvs) \<and> allObjects (\<lambda>kvs. isObjectSchema kvs \<longrightarrow> Q kvs) s)"

lemma schemaInv_simple:
  "map_of kvs ''type'' \<noteq> Some (JStr ''object'') \<Longrightarrow> (\<And>ts. map_of kvs ''type'' \<noteq> Some (JArr ts)) \<Longrightarrow>
   list_all (allObjects (\<lambda>kvs. isObjectSchema kvs \<longrightarrow> Q kvs)) (map snd kvs) \<Longrightarrow> schemaInv Q (JObj kvs)"
  by (auto simp: schemaInv_def isObjectSchema_def split: option.splits json.splits)

lemma schemaInv_primitive: "schemaInv Q (primitiveToSchema p)"
  by (cases p) (simp_all add: schemaInv_def isObjectSchema_def)

lemma schemaInv_arrayOf: "schemaInv Q s \<Longrightarrow> schemaInv Q (arrayOf s)"
  by (simp add: schemaInv_def arrayOf_def isObjectSchema_def)

lemma isObjectSchema_update_type:
  "isObjectSchema (AList.update ''type'' v kvs) =
     (case v of JStr t \<Rightarrow> t = ''object'' | JArr ts \<Rightarrow> JStr ''object'' \<in> set ts | _ \<Rightarrow> False)"
  by (simp add: isObjectSchema_def update_conv')

lemma list_all_update_values:
  "list_all R (map snd al) \<Longrightarrow> R v \<Longrightarrow> list_all R (map snd (AList.update k v al))"
  by (induction al) auto

lemma schemaInv_makeNullable:
  assumes Q: "\<And>v kvs. Q (AList.update ''type'' v kvs) = Q kvs"
    and s: "schemaInv Q s"
  shows "schemaInv Q (makeNullable s)"
proof -
  let ?P = "\<lambda>kvs. isObjectSchema kvs \<longrightarrow> Q kvs"
  from s obtain kvs where kvs: "s = JObj kvs" and P: "?P kvs"
    and ch: "list_all (allObjects ?P) (map snd kvs)"
    by (auto simp: schemaInv_def)
  have upd: "list_all (allObjects ?P) (map snd (AList.update ''type'' v kvs))" if "allObjects ?P v" for v
    using ch that by (rule list_all_update_values)
  show ?thesis
  proof (cases "map_of kvs ''type''")
    case None
    then show ?thesis using s kvs
      by (simp add: makeNullable_def schemaInv_def isObjectSchema_def)
  next
    case (Some ty)
    show ?thesis
    proof (cases ty)
      case (JStr t)
      have "allObjects ?P (JArr [JStr t, JStr ''null''])" by simp
      from upd[OF this] Some JStr kvs P show ?thesis
        by (simp add: makeNullable_def schemaInv_def isObjectSchema_update_type Q)
          (simp add: isObjectSchema_def)
    next
      case (JArr ts)
      have a: "allObjects ?P (JArr ts)"
        using ch Some JArr by (auto simp: list_all_iff dest!: map_of_SomeD) 
      then have "allObjects ?P (JArr (ts @ [JStr ''null'']))" by simp
      from upd[OF this] Some JArr kvs P s show ?thesis
        by (simp add: makeNullable_def schemaInv_def isObjectSchema_update_type Q)
          (simp add: isObjectSchema_def)
    qed (use Some s kvs in \<open>simp_all add: makeNullable_def schemaInv_def isObjectSchema_def\<close>)
  qed
qed


definition ctxInv :: "((string \<times> json) list \<Rightarrow> bool) \<Rightarrow> EmitCtx \<Rightarrow> bool" where
  "ctxInv Q ctx = list_all (schemaInv Q) (map snd (defs ctx))"

definition emitOK ::
  "((string \<times> json) list \<Rightarrow> bool) \<Rightarrow> (EmitCtx \<Rightarrow> TypeNode \<Rightarrow> (json \<times> EmitCtx) res) \<Rightarrow> bool" where
  "emitOK Q e = (\<forall>c node s c'. ctxInv Q c \<longrightarrow> e c node = Ret (s, c') \<longrightarrow> schemaInv Q s \<and> ctxInv Q c')"

definition tolerant :: "((string \<times> json) list \<Rightarrow> bool) \<Rightarrow> bool" where
  "tolerant Q = (\<forall>v kvs. Q (AList.update ''type'' v kvs) = Q kvs)"

definition loopInvOpenAI ::
  "((string \<times> json) list \<Rightarrow> bool) \<Rightarrow> EmitCtx \<times> (string \<times> json) list \<times> string list \<Rightarrow> bool" where
  "loopInvOpenAI Q = (\<lambda>(c, properties, required).
     ctxInv Q c \<and> list_all (schemaInv Q) (map snd properties) \<and>
     set required - {''__proto__''} = set (map fst properties))"

lemma ctxInv_stack [simp]: "ctxInv Q (ctx\<lparr>stack := X\<rparr>) = ctxInv Q ctx"
  by (simp add: ctxInv_def)

lemma ctxInv_defs_update:
  "ctxInv Q ctx \<Longrightarrow> schemaInv Q s \<Longrightarrow> ctxInv Q (ctx\<lparr>defs := AList.update k s (defs ctx)\<rparr>)"
  by (simp add: ctxInv_def list_all_update_values)

lemma schemaInv_wrap:
  assumes "tolerant Q" "schemaInv Q base"
  shows "schemaInv Q (if opt then makeNullable (if arr then arrayOf base else base)
                      else (if arr then arrayOf base else base))"
  using assms schemaInv_makeNullable[of Q] schemaInv_arrayOf[of Q]
  by (auto simp: tolerant_def)

lemma keys_update: "fst ` set (AList.update k v al) = insert k (fst ` set al)"
  using dom_update[of k v al] by auto

lemma keys_setProperty:
  "fst ` set (setProperty k v al) = fst ` set al \<union> ({k} - {''__proto__''})"
  by (simp add: setProperty_def keys_update del: AList.update.simps)

lemma list_all_setProperty_values:
  "list_all R (map snd al) \<Longrightarrow> R v \<Longrightarrow> list_all R (map snd (setProperty k v al))"
  by (simp add: setProperty_def list_all_update_values del: AList.update.simps)

lemma step_openai:
  assumes "emitOK Q e" "tolerant Q" "loopInvOpenAI Q (c, properties, required)"
    and "e c node = Ret (base, c')"
  shows "loopInvOpenAI Q
           (c', setProperty k (if opt then makeNullable (if arr then arrayOf base else base)
                               else (if arr then arrayOf base else base)) properties,
            required @ [k])"
proof -
  from assms have b: "schemaInv Q base" and c: "ctxInv Q c'"
    unfolding emitOK_def loopInvOpenAI_def by blast+
  from assms(3) have k: "set required - {''__proto__''} = fst ` set properties"
    unfolding loopInvOpenAI_def by simp
  have "set (required @ [k]) - {''__proto__''} = fst ` set properties \<union> ({k} - {''__proto__''})"
    using k by auto
  with schemaInv_wrap[OF assms(2) b] assms(3) c show ?thesis
    unfolding loopInvOpenAI_def
    by (simp add: list_all_setProperty_values keys_setProperty)
qed

lemma schemaInv_JObj: "schemaInv Q s \<Longrightarrow> \<exists>kvs. s = JObj kvs"
  by (simp add: schemaInv_def)

lemma properties_not_object_schema:
  assumes "list_all (schemaInv Q) (map snd properties)"
  shows "\<not> isObjectSchema properties"
proof -
  have "\<exists>kvs. v = JObj kvs" if "map_of properties ''type'' = Some v" for v
  proof -
    from that have "v \<in> set (map snd properties)" by (force dest: map_of_SomeD)
    with assms show ?thesis by (auto simp: list_all_iff dest: schemaInv_JObj)
  qed
  then show ?thesis by (auto simp: isObjectSchema_def split: option.splits json.splits)
qed

lemma allObjects_properties:
  assumes "list_all (schemaInv Q) (map snd properties)"
  shows "allObjects (\<lambda>kvs. isObjectSchema kvs \<longrightarrow> Q kvs) (JObj properties)"
  using assms properties_not_object_schema[OF assms]
  by (auto simp: list_all_iff schemaInv_def)

lemma allObjects_strings: "allObjects P (JArr (map JStr xs))"
  by (simp add: list_all_iff)

lemma schemaInv_object_openai:
  assumes "list_all (schemaInv openaiObjectOK) (map snd properties)"
    and "set required - {''__proto__''} = set (map fst properties)"
  shows "schemaInv openaiObjectOK
           (JObj [(''type'', JStr ''object''), (''properties'', JObj properties),
                  (''required'', JArr (map JStr required)), (''additionalProperties'', JBool False)])"
proof -
  have "openaiObjectOK [(''type'', JStr ''object''), (''properties'', JObj properties),
                  (''required'', JArr (map JStr required)), (''additionalProperties'', JBool False)]"
  proof -
    have "JStr ` set required - {JStr ''__proto__''} = JStr ` (set required - {''__proto__''})"
      by auto
    with assms(2) show ?thesis by (simp add: openaiObjectOK_def image_image)
  qed
  with allObjects_properties[OF assms(1)] allObjects_strings[of _ required] show ?thesis
    unfolding schemaInv_def by (simp del: allObjects.simps(1) add: allObjects.simps(1)[of _ "[_, _, _, _]"])
qed

lemma tolerant_openai: "tolerant openaiObjectOK"
  by (simp add: tolerant_def openaiObjectOK_def update_conv')


lemma schemaInv_placeholderOpenAI: "schemaInv openaiObjectOK placeholderOpenAI"
  unfolding placeholderOpenAI_def
  using schemaInv_object_openai[of "[]" "[]"] by simp

lemma emitOK_D:
  "emitOK Q e \<Longrightarrow> ctxInv Q c \<Longrightarrow> e c node = Ret (s, c') \<Longrightarrow> schemaInv Q s \<and> ctxInv Q c'"
  unfolding emitOK_def by blast

lemma foldM_invariant3:
  assumes "foldM f (a, b, c) xs = Ret s'" "I (a, b, c)"
    and "\<And>a b c x a' b' c'. x \<in> set xs \<Longrightarrow> I (a, b, c) \<Longrightarrow> f (a, b, c) x = Ret (a', b', c')
           \<Longrightarrow> I (a', b', c')"
  shows "I s'"
  using assms(1,2)
proof (rule foldM_invariant)
  fix s x s1
  assume "x \<in> set xs" "I s" "f s x = Ret s1"
  then show "I s1" using assms(3)[of x "fst s" "fst (snd s)" "snd (snd s)" "fst s1" "fst (snd s1)" "snd (snd s1)"]
    by simp
qed

lemma bind_pair_RetE:
  assumes "bind m (\<lambda>(a, b). f a b) = Ret y"
  obtains a b where "m = Ret (a, b)" "f a b = Ret y"
  using assms by (cases m) (auto simp: bind_def)

lemma ensureDefOpenAI_cases:
  assumes "ensureDefOpenAI S (Suc n) ctx name = Ret ctx'"
  obtains (known) "name \<in> set (map fst (defs ctx))" "ctx' = ctx"
  | (recursive) "name \<notin> set (map fst (defs ctx))" "name \<in> stack ctx"
      "ctx' = ctx\<lparr>defs := AList.update name placeholderOpenAI (defs ctx)\<rparr>"
  | (fresh) d schema c1 where "name \<notin> set (map fst (defs ctx))" "name \<notin> stack ctx"
      "map_of (types (doc ctx)) name = Some d"
      "emitOpenAI S n (ctx\<lparr>stack := insert name (stack ctx)\<rparr>) (td_node d) = Ret (schema, c1)"
      "ctx' = c1\<lparr>stack := stack c1 - {name}, defs := AList.update name schema (defs c1)\<rparr>"
proof (cases "name \<in> set (map fst (defs ctx))")
  case True
  with assms have "ctx' = ctx" by simp
  with True show ?thesis by (rule known)
next
  case nd: False
  show ?thesis
  proof (cases "name \<in> stack ctx")
    case True
    with nd assms have "ctx' = ctx\<lparr>defs := AList.update name placeholderOpenAI (defs ctx)\<rparr>"
      by simp
    with nd True show ?thesis by (rule recursive)
  next
    case ns: False
    show ?thesis
    proof (cases "map_of (types (doc ctx)) name")
      case None
      with nd ns assms have False by simp
      then show ?thesis ..
    next
      case (Some d)
      with nd ns assms have
        "bind (emitOpenAI S n (ctx\<lparr>stack := insert name (stack ctx)\<rparr>) (td_node d))
           (\<lambda>(schema, c1). Ret (c1\<lparr>stack := stack c1 - {name},
                                     defs := AList.update name schema (defs c1)\<rparr>)) = Ret ctx'"
        by simp
      then obtain schema c1 where
        "emitOpenAI S n (ctx\<lparr>stack := insert name (stack ctx)\<rparr>) (td_node d) = Ret (schema, c1)"
        "Ret (c1\<lparr>stack := stack c1 - {name}, defs := AList.update name schema (defs c1)\<rparr>) = Ret ctx'"
        by (rule bind_pair_RetE)
      then have "emitOpenAI S n (ctx\<lparr>stack := insert name (stack ctx)\<rparr>) (td_node d) = Ret (schema, c1)"
        "ctx' = c1\<lparr>stack := stack c1 - {name}, defs := AList.update name schema (defs c1)\<rparr>"
        by simp_all
      with nd ns Some show ?thesis by (rule fresh)
    qed
  qed
qed

lemma ensureDefOpenAI_inv:
  assumes "emitOK openaiObjectOK (emitOpenAI S n)" "ctxInv openaiObjectOK ctx"
    and "ensureDefOpenAI S (Suc n) ctx name = Ret ctx'"
  shows "ctxInv openaiObjectOK ctx'"
  using assms(3)
proof (cases rule: ensureDefOpenAI_cases)
  case known
  with assms show ?thesis by simp
next
  case recursive
  then show ?thesis using ctxInv_defs_update[OF assms(2) schemaInv_placeholderOpenAI] by simp
next
  case (fresh d schema c1)
  from emitOK_D[OF assms(1) _ fresh(4)] assms(2)
  have "schemaInv openaiObjectOK schema" "ctxInv openaiObjectOK c1"
    by simp_all
  then show ?thesis unfolding fresh(5)
    using ctxInv_defs_update[of openaiObjectOK "c1\<lparr>stack := stack c1 - {name}\<rparr>" schema name]
    by simp
qed

lemma emitObjectOpenAI_inv:
  assumes E: "emitOK openaiObjectOK (emitOpenAI S n)" and c: "ctxInv openaiObjectOK ctx"
    and r: "emitObjectOpenAI S (Suc n) ctx obj = Ret (s, ctx')"
  shows "schemaInv openaiObjectOK s \<and> ctxInv openaiObjectOK ctx'"
  using r
  apply (simp only: emitObjectOpenAI.simps)
  apply (clarsimp simp: bind_Ret_iff)
  apply (drule foldM_invariant3[where I="loopInvOpenAI openaiObjectOK"])
  subgoal using c by (simp add: loopInvOpenAI_def)
  subgoal for c1 ps1 rq1 ps2 rq2 a b c idx a' b' c'
    apply (clarsimp simp: bind_Ret_iff split: if_splits)
    subgoal using E by (auto simp: loopInvOpenAI_def dest: emitOK_D)
    subgoal
      apply (erule foldM_invariant3[where I="loopInvOpenAI openaiObjectOK"])
      subgoal by simp
      subgoal
        apply (clarsimp simp: bind_Ret_iff Let_def split del: if_split)
        apply (rule step_openai[OF E tolerant_openai])
         apply assumption+
        done
      done
    done
  apply (drule foldM_invariant3[where I="loopInvOpenAI openaiObjectOK"])
  subgoal by simp
  subgoal
    apply (clarsimp simp: bind_Ret_iff Let_def split del: if_split)
    apply (rule step_openai[OF E tolerant_openai])
     apply assumption+
    done
  subgoal
    by (simp add: loopInvOpenAI_def schemaInv_object_openai)
  done



lemma allObjects_literalJson: "allObjects P (literalJson l)"
  by (cases l) simp_all

lemma schemaInv_literal_union:
  "schemaInv Q (JObj (case unionLiteralType enums of
                        Some t \<Rightarrow> AList.update ''type'' (JStr t) [(''enum'', JArr (map literalJson enums))]
                      | None \<Rightarrow> [(''enum'', JArr (map literalJson enums))]))"
proof (cases "unionLiteralType enums")
  case None
  then show ?thesis
    by (simp add: schemaInv_def isObjectSchema_def list_all_iff allObjects_literalJson)
next
  case (Some t)
  from unionLiteralType_Some[OF this] obtain l where "typeof l = t" by (cases enums) auto
  then have "t \<noteq> ''object''" using typeof_cases[of l] by auto
  with Some show ?thesis
    by (simp add: schemaInv_def isObjectSchema_def list_all_iff allObjects_literalJson)
qed

definition ensureOK ::
  "((string \<times> json) list \<Rightarrow> bool) \<Rightarrow> (EmitCtx \<Rightarrow> string \<Rightarrow> EmitCtx res) \<Rightarrow> bool" where
  "ensureOK Q e = (\<forall>c name c'. ctxInv Q c \<longrightarrow> e c name = Ret c' \<longrightarrow> ctxInv Q c')"

definition emitObjectOK ::
  "((string \<times> json) list \<Rightarrow> bool) \<Rightarrow> (EmitCtx \<Rightarrow> ObjectNode \<Rightarrow> (json \<times> EmitCtx) res) \<Rightarrow> bool" where
  "emitObjectOK Q e = (\<forall>c obj s c'. ctxInv Q c \<longrightarrow> e c obj = Ret (s, c') \<longrightarrow> schemaInv Q s \<and> ctxInv Q c')"

lemma emitOpenAI_inv:
  assumes E: "emitOK Q (emitOpenAI S n)" and D: "ensureOK Q (ensureDefOpenAI S n)"
    and O: "emitObjectOK Q (emitObjectOpenAI S n)"
    and c: "ctxInv Q ctx" and r: "emitOpenAI S (Suc n) ctx node = Ret (s, ctx')"
  shows "schemaInv Q s \<and> ctxInv Q ctx'"
proof (cases node)
  case (Primitive p)
  with r c show ?thesis by (auto simp: schemaInv_primitive)
next
  case (StringLiteral v)
  with r c show ?thesis by (auto simp: schemaInv_def isObjectSchema_def)
next
  case (NumberLiteral v)
  with r c show ?thesis by (auto simp: schemaInv_def isObjectSchema_def)
next
  case (BooleanLiteral v)
  with r c show ?thesis by (auto simp: schemaInv_def isObjectSchema_def)
next
  case (TypeRef name)
  with r obtain c1 where "ensureDefOpenAI S n ctx name = Ret c1" "ctx' = c1"
    "s = JObj [(''$ref'', JStr (''#/$defs/'' @ name))]"
    by (auto simp: bind_Ret_iff)
  with D c show ?thesis unfolding ensureOK_def
    by (auto simp: schemaInv_def isObjectSchema_def)
next
  case (UnionT members)
  show ?thesis
  proof (cases "list_all isScalarLiteral members")
    case True
    with r UnionT obtain enums where
      "s = JObj (case unionLiteralType enums of
                        Some t \<Rightarrow> AList.update ''type'' (JStr t) [(''enum'', JArr (map literalJson enums))]
                      | None \<Rightarrow> [(''enum'', JArr (map literalJson enums))])" "ctx' = ctx"
      by (auto simp: bind_Ret_iff Let_def simp del: AList.update.simps)
    with c show ?thesis by (simp only: schemaInv_literal_union simp_thms)
  next
    case False
    with r UnionT obtain schemas where
      m: "mapM_st (emitOpenAI S n) ctx members = Ret (schemas, ctx')"
      and s: "s = JObj [(''anyOf'', JArr schemas)]"
      by (auto simp: bind_Ret_iff)
    have "ctxInv Q ctx' \<and> list_all (schemaInv Q) schemas"
      using m c by (rule mapM_st_invariant) (use E in \<open>auto dest: emitOK_D\<close>)
    then show ?thesis unfolding s
      by (auto simp: schemaInv_def isObjectSchema_def list_all_iff)
  qed
next
  case (Intersection members)
  with r obtain obj where "emitObjectOpenAI S n ctx obj = Ret (s, ctx')"
    by (auto simp: bind_Ret_iff)
  with O c show ?thesis unfolding emitObjectOK_def by blast
next
  case (Object ps sigs cl)
  with r O c show ?thesis unfolding emitObjectOK_def by simp
qed

lemma openai_inv_all:
  "emitOK openaiObjectOK (emitOpenAI S n) \<and> ensureOK openaiObjectOK (ensureDefOpenAI S n)
   \<and> emitObjectOK openaiObjectOK (emitObjectOpenAI S n)"
proof (induction n)
  case 0
  show ?case by (simp add: emitOK_def ensureOK_def emitObjectOK_def)
next
  case (Suc n)
  then have E: "emitOK openaiObjectOK (emitOpenAI S n)"
    and D: "ensureOK openaiObjectOK (ensureDefOpenAI S n)"
    and O: "emitObjectOK openaiObjectOK (emitObjectOpenAI S n)" by blast+
  have "emitOK openaiObjectOK (emitOpenAI S (Suc n))"
    unfolding emitOK_def using emitOpenAI_inv[OF E D O] by blast
  moreover have "ensureOK openaiObjectOK (ensureDefOpenAI S (Suc n))"
    unfolding ensureOK_def using ensureDefOpenAI_inv[OF E] by blast
  moreover have "emitObjectOK openaiObjectOK (emitObjectOpenAI S (Suc n))"
    unfolding emitObjectOK_def using emitObjectOpenAI_inv[OF E] by blast
  ultimately show ?case by blast
qed

definition openaiInvariant :: "json \<Rightarrow> bool" where
  "openaiInvariant out = allObjects (\<lambda>kvs. isObjectSchema kvs \<longrightarrow> openaiObjectOK kvs) out"

definition treeDoc :: TDLDoc where
  "treeDoc =
     \<lparr>types = [(''Tree'', \<lparr>td_name = ''Tree'',
                  td_node = Object [PropNode ''value'' (Primitive PNumber) False False,
                                    PropNode ''children'' (TypeRef ''Tree'') False True] [] False\<rparr>)],
      symbols = [\<lparr>s_name = ''root'', s_type = TypeRef ''Tree'', s_optional = False, s_isArray = False\<rparr>,
                 \<lparr>s_name = ''tags'', s_type = UnionT [StringLiteral ''a'', StringLiteral ''b''],
                  s_optional = True, s_isArray = True\<rparr>],
      meta = []\<rparr>"

definition treeSchemaOpenAI :: json where
  "treeSchemaOpenAI =
     JObj
       [(''type'', JStr ''object''),
        (''properties'',
         JObj
          [(''root'', JObj [(''$ref'', JStr ''#/$defs/Tree'')]),
           (''tags'',
            JObj
             [(''type'', JArr [JStr ''array'', JStr ''null'']),
              (''items'',
               JObj [(''enum'', JArr [JStr ''a'', JStr ''b'']), (''type'', JStr ''string'')])])]),
        (''required'', JArr [JStr ''root'', JStr ''tags'']),
        (''additionalProperties'', JBool False),
        (''$defs'',
         JObj
          [(''Tree'',
            JObj
             [(''type'', JStr ''object''),
              (''properties'',
               JObj
                [(''value'', JObj [(''type'', JStr ''number'')]),
                 (''children'',
                  JObj
                   [(''type'', JStr ''array''),
                    (''items'', JObj [(''$ref'', JStr ''#/$defs/Tree'')])])]),
              (''required'', JArr [JStr ''value'', JStr ''children'']),
              (''additionalProperties'', JBool False)])])]"

lemma generateOpenAISchema_treeDoc:
  "generateOpenAISchema integerString 6 treeDoc = Ret treeSchemaOpenAI"
  by (simp add: eval_nat_numeral generateOpenAISchema_def treeDoc_def treeSchemaOpenAI_def
      bind_simps placeholderOpenAI_def arrayOf_def makeNullable_def unionLiteralType_def
      setProperty_def)

text \<open>
  Whenever the OpenAI generator returns a schema, every object schema in it (the root,
  the entries of \<open>$defs\<close> and every nested one) has \<open>additionalProperties\<close> equal to
  \<open>false\<close>, and the names in its \<open>required\<close> array, the name \<^verbatim>\<open>__proto__\<close> apart, are
  the keys of its \<open>properties\<close>.
\<close>

lemma openai_object_schemas:
  assumes "generateOpenAISchema S fuel d = Ret out"
  shows "openaiInvariant out"
proof -
  let ?Q = openaiObjectOK
  from assms obtain ctx c properties required where
    f1: "foldM (ensureDefOpenAI S fuel) \<lparr>doc = d, defs = [], stack = {}\<rparr> (map fst (types d)) = Ret ctx"
    and f2: "foldM
               (\<lambda>(c, properties, required) sym.
                  bind (emitOpenAI S fuel c (s_type sym)) (\<lambda>(baseSchema, c').
                    let withArray = (if s_isArray sym then arrayOf baseSchema else baseSchema);
                        finalSchema = (if s_optional sym then makeNullable withArray else withArray)
                    in Ret (c', setProperty (s_name sym) finalSchema properties,
                            required @ [s_name sym])))
               (ctx, [], []) (symbols d) = Ret (c, properties, required)"
    and out: "out = JObj [(''type'', JStr ''object''),
                          (''properties'', JObj properties),
                          (''required'', JArr (map JStr required)),
                          (''additionalProperties'', JBool False),
                          (''$defs'', JObj (defs c))]"
    unfolding generateOpenAISchema_def by (auto simp: bind_Ret_iff)
  note all = openai_inv_all[of S fuel]
  then have E: "emitOK ?Q (emitOpenAI S fuel)" by blast
  have "ctxInv ?Q \<lparr>doc = d, defs = [], stack = {}\<rparr>" by (simp add: ctxInv_def)
  with f1 have 1: "ctxInv ?Q ctx"
    by (rule foldM_invariant) (use all in \<open>auto simp: ensureOK_def\<close>)
  have 2: "loopInvOpenAI ?Q (c, properties, required)"
    using f2
  proof (rule foldM_invariant3)
    show "loopInvOpenAI ?Q (ctx, [], [])" using 1 by (simp add: loopInvOpenAI_def)
  next
    fix a b c x a' b' c'
    assume "loopInvOpenAI ?Q (a, b, c)"
      and "(case (a, b, c) of (c, properties, required) \<Rightarrow> \<lambda>sym.
                  bind (emitOpenAI S fuel c (s_type sym)) (\<lambda>(baseSchema, c').
                    let withArray = (if s_isArray sym then arrayOf baseSchema else baseSchema);
                        finalSchema = (if s_optional sym then makeNullable withArray else withArray)
                    in Ret (c', setProperty (s_name sym) finalSchema properties,
                            required @ [s_name sym]))) x = Ret (a', b', c')"
    then show "loopInvOpenAI ?Q (a', b', c')"
      apply (clarsimp simp: bind_Ret_iff Let_def split del: if_split)
      apply (rule step_openai[OF E tolerant_openai])
       apply assumption+
      done
  qed
  then have "schemaInv ?Q (JObj [(''type'', JStr ''object''),
                          (''properties'', JObj properties),
                          (''required'', JArr (map JStr required)),
                          (''additionalProperties'', JBool False)])"
    by (simp add: loopInvOpenAI_def schemaInv_object_openai)
  moreover have "allObjects (\<lambda>kvs. isObjectSchema kvs \<longrightarrow> ?Q kvs) (JObj (defs c))"
    using 2 by (intro allObjects_properties) (simp add: loopInvOpenAI_def ctxInv_def)
  ultimately show ?thesis unfolding out openaiInvariant_def schemaInv_def
    by (simp add: openaiObjectOK_def isObjectSchema_def)
qed

section \<open>Intersections\<close>

lemma foldM_as_mapM:
  "foldM (\<lambda>s p. bind (g p) (\<lambda>obj. Ret (h s obj))) s parts =
   bind (mapM g parts) (\<lambda>objs. Ret (foldl h s objs))"
proof (induction parts arbitrary: s)
  case Nil
  show ?case by (simp add: bind_simps)
next
  case (Cons p parts)
  show ?case
  proof (cases "g p")
    case (Ret obj)
    then show ?thesis using Cons[of "h s obj"]
      by (cases "mapM g parts") (simp_all add: bind_simps)
  qed (simp_all add: bind_simps)
qed

definition mergeStep ::
  "(string \<times> PropNode) list \<times> IndexSigNode list \<times> bool \<Rightarrow> ObjectNode \<Rightarrow>
   (string \<times> PropNode) list \<times> IndexSigNode list \<times> bool" where
  "mergeStep = (\<lambda>(outProps, outIdx, cl) obj.
     (fold (\<lambda>ip m. AList.update (p_name ip) ip m) (o_props obj) outProps,
      outIdx @ o_indexSigs obj, cl \<or> o_closed obj))"

lemma mergeObjects_as_mapM:
  "mergeObjects (Suc n) ctx parts =
   bind (mapM (resolveObject n ctx) parts) (\<lambda>objs.
     case foldl mergeStep ([], [], False) objs of (outProps, outIdx, cl) \<Rightarrow>
       Ret \<lparr>o_props = map snd outProps, o_indexSigs = outIdx, o_closed = cl\<rparr>)"
proof -
  have "foldM
          (\<lambda>(outProps, outIdx, cl) p.
             bind (resolveObject n ctx p) (\<lambda>obj.
               Ret (fold (\<lambda>ip m. AList.update (p_name ip) ip m) (o_props obj) outProps,
                    outIdx @ o_indexSigs obj,
                    cl \<or> o_closed obj)))
          ([], [], False) parts
        = foldM (\<lambda>s p. bind (resolveObject n ctx p) (\<lambda>obj. Ret (mergeStep s obj))) ([], [], False) parts"
    by (rule arg_cong[where f="\<lambda>f. foldM f ([], [], False) parts"])
       (auto simp: mergeStep_def fun_eq_iff)
  then show ?thesis
    by (cases "mapM (resolveObject n ctx) parts")
       (simp_all add: foldM_as_mapM bind_simps split: prod.splits)
qed

lemma foldl_mergeStep:
  "foldl mergeStep (ps, sigs, cl) objs =
     (fold (\<lambda>ip m. AList.update (p_name ip) ip m) (concat (map o_props objs)) ps,
      sigs @ concat (map o_indexSigs objs),
      cl \<or> list_ex o_closed objs)"
  by (induction objs arbitrary: ps sigs cl) (auto simp: mergeStep_def)

lemma fold_update_keys:
  "fst ` set (fold (\<lambda>ip m. AList.update (p_name ip) ip m) ps m) = fst ` set m \<union> p_name ` set ps"
  by (induction ps arbitrary: m) (auto simp: keys_update)

lemma fold_update_distinct:
  "distinct (map fst m) \<Longrightarrow> distinct (map fst (fold (\<lambda>ip m. AList.update (p_name ip) ip m) ps m))"
  by (induction ps arbitrary: m) (auto simp: distinct_update)

lemma fold_update_map_of:
  "map_of (fold (\<lambda>ip m. AList.update (p_name ip) ip m) ps m) k =
     (if k \<in> p_name ` set ps then Some (last (filter (\<lambda>q. p_name q = k) ps)) else map_of m k)"
proof (induction ps arbitrary: m)
  case Nil
  show ?case by simp
next
  case (Cons p ps)
  show ?case
    by (simp add: Cons update_conv' del: AList.update.simps)
       (auto simp: filter_empty_conv image_iff)
qed


lemma fold_update_names:
  assumes "\<forall>e\<in>set m. p_name (snd e) = fst e"
  shows "\<forall>e\<in>set (fold (\<lambda>ip m. AList.update (p_name ip) ip m) ps m). p_name (snd e) = fst e"
  using assms
proof (induction ps arbitrary: m)
  case Nil
  then show ?case by simp
next
  case (Cons p ps)
  have "\<forall>e\<in>set (AList.update (p_name p) p m). p_name (snd e) = fst e"
    using Cons.prems by (induction m) auto
  then show ?case using Cons.IH by simp
qed

text \<open>
  The object that \<^verbatim>\<open>mergeObjects\<close> builds from the objects \<open>objs\<close> its operands resolve
  to: the map \<^verbatim>\<open>outProps\<close> after every property of every operand was set under its name,
  in order; all index signatures; closed when some operand is.
\<close>

definition merged :: "ObjectNode list \<Rightarrow> ObjectNode" where
  "merged objs =
     \<lparr>o_props = map snd (fold (\<lambda>ip m. AList.update (p_name ip) ip m) (concat (map o_props objs)) []),
      o_indexSigs = concat (map o_indexSigs objs),
      o_closed = list_ex o_closed objs\<rparr>"

lemma mergeObjects_merged:
  "mergeObjects (Suc n) ctx parts =
     bind (mapM (resolveObject n ctx) parts) (\<lambda>objs. Ret (merged objs))"
  unfolding mergeObjects_as_mapM merged_def by (simp add: foldl_mergeStep)

lemma fold_update_order:
  "map fst (fold (\<lambda>ip m. AList.update (p_name ip) ip m) ps []) = rev (remdups (rev (map p_name ps)))"
proof (induction ps rule: rev_induct)
  case Nil
  show ?case by simp
next
  case (snoc p ps)
  let ?m = "fold (\<lambda>ip m. AList.update (p_name ip) ip m) ps []"
  have k: "fst ` set ?m = p_name ` set ps" using fold_update_keys[of ps "[]"] by simp
  have "map fst (AList.update (p_name p) p ?m) =
          (if p_name p \<in> fst ` set ?m then map fst ?m else map fst ?m @ [p_name p])"
    by (simp add: update_keys del: AList.update.simps)
  with snoc k show ?case by (simp del: AList.update.simps)
qed

lemma merged_props:
  "distinct (map p_name (o_props (merged objs)))"
  "map p_name (o_props (merged objs)) = rev (remdups (rev (map p_name (concat (map o_props objs)))))"
  "list_all (\<lambda>p. p = last (filter (\<lambda>q. p_name q = p_name p) (concat (map o_props objs))))
     (o_props (merged objs))"
proof -
  let ?f = "\<lambda>ip m. AList.update (p_name ip) ip m"
  let ?all = "concat (map o_props objs)"
  let ?al = "fold ?f ?all []"
  have names: "\<forall>e\<in>set ?al. p_name (snd e) = fst e"
    by (rule fold_update_names) simp
  then have pn: "map p_name (o_props (merged objs)) = map fst ?al" unfolding merged_def by simp
  have d: "distinct (map fst ?al)" by (rule fold_update_distinct) simp
  have l: "p = last (filter (\<lambda>q. p_name q = p_name p) ?all)" if "p \<in> set (map snd ?al)" for p
  proof -
    from that names have "(p_name p, p) \<in> set ?al" by force
    with d have "map_of ?al (p_name p) = Some p" by simp
    then show ?thesis unfolding fold_update_map_of by (simp split: if_splits)
  qed
  show "distinct (map p_name (o_props (merged objs)))" unfolding pn by (rule d)
  show "map p_name (o_props (merged objs)) = rev (remdups (rev (map p_name ?all)))"
    unfolding pn by (rule fold_update_order)
  show "list_all (\<lambda>p. p = last (filter (\<lambda>q. p_name q = p_name p) ?all)) (o_props (merged objs))"
    unfolding merged_def list_all_iff using l by simp
qed

definition abCtx :: EmitCtx where
  "abCtx =
     \<lparr>doc = \<lparr>types = [(''A'', \<lparr>td_name = ''A'',
                            td_node = Object [PropNode ''x'' (Primitive PString) False False,
                                              PropNode ''y'' (Primitive PString) False False] [] False\<rparr>),
                       (''B'', \<lparr>td_name = ''B'',
                            td_node = Object [PropNode ''x'' (Primitive PNumber) False False] [] True\<rparr>)],
              symbols = [], meta = []\<rparr>,
      defs = [], stack = {}\<rparr>"

definition abSchema :: "bool \<Rightarrow> json" where
  "abSchema additional =
     JObj [(''type'', JStr ''object''),
           (''properties'',
            JObj [(''x'', JObj [(''type'', JStr ''number'')]),
                  (''y'', JObj [(''type'', JStr ''string'')])]),
           (''required'', JArr [JStr ''x'', JStr ''y'']),
           (''additionalProperties'', JBool additional)]"

lemma emit_ab:
  "emitOpenAI integerString (Suc 4) abCtx (Intersection [TypeRef ''A'', TypeRef ''B'']) =
     Ret (abSchema False, abCtx)"
  "emitGemini integerString (Suc 4) abCtx (Intersection [TypeRef ''A'', TypeRef ''B'']) =
     Ret (abSchema False, abCtx)"
  by (simp_all add: eval_nat_numeral abCtx_def abSchema_def bind_simps setProperty_def)

text \<open>
  C8. An intersection is emitted by merging its operands into one object and emitting that
  object. An operand resolves to itself when it is an object, through the named-type table
  when it is a reference (an unknown name is an error), by a recursive merge when it is an
  intersection, and to the object-like error otherwise. The merge resolves the operands
  from left to right; the first operand that fails to resolve ends it with that failure,
  and when all of them resolve, to \<open>objs\<close>, it returns \<open>merged objs\<close>. That object is
  closed exactly when some operand is; its index signatures are those of the operands in
  order; its property names are pairwise distinct and are the names declared by the
  operands, in the order of their first declaration; and each of its properties is the
  last property of that name among the operands taken from left to right, so the
  rightmost declaration wins as a whole.
\<close>

theorem intersection_merge:
  "resolveObject (Suc n) ctx (Object ps sigs cl) = Ret \<lparr>o_props = ps, o_indexSigs = sigs, o_closed = cl\<rparr> \<and>
   resolveObject (Suc n) ctx (TypeRef name) =
     (case map_of (types (doc ctx)) name of
        None \<Rightarrow> Throw (UnknownType name)
      | Some d \<Rightarrow> resolveObject n ctx (td_node d)) \<and>
   resolveObject (Suc n) ctx (Intersection members) = mergeObjects n ctx members \<and>
   resolveObject (Suc n) ctx (Primitive pn) = Throw OperandsMustBeObjectLike \<and>
   resolveObject (Suc n) ctx (StringLiteral sv) = Throw OperandsMustBeObjectLike \<and>
   resolveObject (Suc n) ctx (NumberLiteral nv) = Throw OperandsMustBeObjectLike \<and>
   resolveObject (Suc n) ctx (BooleanLiteral bv) = Throw OperandsMustBeObjectLike \<and>
   resolveObject (Suc n) ctx (UnionT members) = Throw OperandsMustBeObjectLike \<and>
   emitOpenAI S (Suc n) ctx (Intersection members) =
     bind (mergeObjects n ctx members) (emitObjectOpenAI S n ctx) \<and>
   emitGemini S (Suc n) ctx (Intersection members) =
     bind (mergeObjects n ctx members) (emitObjectGemini S n ctx) \<and>
   mergeObjects (Suc n) ctx parts =
     bind (mapM (resolveObject n ctx) parts) (\<lambda>objs. Ret (merged objs)) \<and>
   o_closed (merged objs) = list_ex o_closed objs \<and>
   o_indexSigs (merged objs) = concat (map o_indexSigs objs) \<and>
   distinct (map p_name (o_props (merged objs))) \<and>
   map p_name (o_props (merged objs)) = rev (remdups (rev (map p_name (concat (map o_props objs))))) \<and>
   list_all (\<lambda>p. p = last (filter (\<lambda>q. p_name q = p_name p) (concat (map o_props objs))))
     (o_props (merged objs))"
  using mergeObjects_merged[of n ctx parts] merged_props[of objs]
  by (simp add: merged_def)

text \<open>
  With \<open>A = {x: string, y: string}\<close> and the closed \<open>B = {x: number}\<close>, the
  intersection \<open>A & B & {z?: boolean}\<close> has \<open>x\<close> from \<open>B\<close>, keeps \<open>y\<close> and \<open>z\<close>, and is
  closed; \<open>A & B\<close> is emitted with the \<open>x\<close> of \<open>B\<close> by both emitters.
\<close>

theorem intersection_merge_witness:
  "mergeObjects (Suc 2) abCtx
     [TypeRef ''A'', TypeRef ''B'', Object [PropNode ''z'' (Primitive PBoolean) True False] [] False] =
     Ret \<lparr>o_props = [PropNode ''x'' (Primitive PNumber) False False,
                      PropNode ''y'' (Primitive PString) False False,
                      PropNode ''z'' (Primitive PBoolean) True False],
          o_indexSigs = [], o_closed = True\<rparr> \<and>
   emitOpenAI integerString (Suc 4) abCtx (Intersection [TypeRef ''A'', TypeRef ''B'']) =
     Ret (abSchema False, abCtx) \<and>
   emitGemini integerString (Suc 4) abCtx (Intersection [TypeRef ''A'', TypeRef ''B'']) =
     Ret (abSchema False, abCtx)"
proof -
  note t = intersection_merge[where n = 2 and ctx = abCtx
      and parts = "[TypeRef ''A'', TypeRef ''B'',
                    Object [PropNode ''z'' (Primitive PBoolean) True False] [] False]"
      and S = integerString and members = "[TypeRef ''A'', TypeRef ''B'']"]
  have "mapM (resolveObject 2 abCtx)
          [TypeRef ''A'', TypeRef ''B'', Object [PropNode ''z'' (Primitive PBoolean) True False] [] False] =
        Ret [\<lparr>o_props = [PropNode ''x'' (Primitive PString) False False,
                         PropNode ''y'' (Primitive PString) False False],
              o_indexSigs = [], o_closed = False\<rparr>,
             \<lparr>o_props = [PropNode ''x'' (Primitive PNumber) False False],
              o_indexSigs = [], o_closed = True\<rparr>,
             \<lparr>o_props = [PropNode ''z'' (Primitive PBoolean) True False],
              o_indexSigs = [], o_closed = False\<rparr>]"
    by (simp add: eval_nat_numeral abCtx_def bind_simps)
  with t have "mergeObjects (Suc 2) abCtx
     [TypeRef ''A'', TypeRef ''B'', Object [PropNode ''z'' (Primitive PBoolean) True False] [] False] =
     Ret \<lparr>o_props = [PropNode ''x'' (Primitive PNumber) False False,
                      PropNode ''y'' (Primitive PString) False False,
                      PropNode ''z'' (Primitive PBoolean) True False],
          o_indexSigs = [], o_closed = True\<rparr>"
    by (simp add: bind_simps merged_def)
  with emit_ab show ?thesis by blast
qed

section \<open>Recursive named types\<close>

text \<open>
  The extends sugar \<open>A(A): {x: string}\<close> declares \<open>A\<close> as the intersection of \<open>A\<close>
  and an object. \<^const>\<open>ensureDefOpenAI\<close> and \<^const>\<open>ensureDefGemini\<close> guard their
  recursion with the set of the names being emitted; \<^const>\<open>resolveObject\<close> follows a
  reference to its definition with no such guard.
\<close>

definition selfRefDoc :: TDLDoc where
  "selfRefDoc =
     \<lparr>types = [(''A'', \<lparr>td_name = ''A'',
                  td_node = Intersection [TypeRef ''A'',
                              Object [PropNode ''x'' (Primitive PString) False False] [] False]\<rparr>)],
      symbols = [], meta = []\<rparr>"

lemma selfRef_resolve_diverges:
  assumes "doc ctx = selfRefDoc"
  shows "resolveObject n ctx (TypeRef ''A'') = Diverge \<and>
         resolveObject n ctx (Intersection [TypeRef ''A'',
            Object [PropNode ''x'' (Primitive PString) False False] [] False]) = Diverge \<and>
         mergeObjects n ctx [TypeRef ''A'',
            Object [PropNode ''x'' (Primitive PString) False False] [] False] = Diverge"
proof (induction n)
  case 0
  show ?case by simp
next
  case (Suc n)
  then show ?case using assms by (simp add: selfRefDoc_def bind_simps)
qed

lemma selfRef_emit_diverges:
  assumes "doc ctx = selfRefDoc"
  shows "emitOpenAI S n ctx (Intersection [TypeRef ''A'',
            Object [PropNode ''x'' (Primitive PString) False False] [] False]) = Diverge"
    and "emitGemini S n ctx (Intersection [TypeRef ''A'',
            Object [PropNode ''x'' (Primitive PString) False False] [] False]) = Diverge"
  using selfRef_resolve_diverges[OF assms] by (cases n; simp add: bind_simps)+

text \<open>
  C3 (the code departs from the claim). For the document \<open>A(A): {x: string}\<close>, in which
  the named type \<open>A\<close> refers to itself as an operand of an intersection, neither
  generator returns, whatever the fuel: resolving the operand \<open>A\<close> asks for the merge of
  the operands of \<open>A\<close> again, without end. No \<open>$defs\<close> entry is produced. (A recursion
  through a property, as in \<^const>\<open>treeDoc\<close>, does return.)
\<close>

theorem recursive_intersection_diverges:
  "generateOpenAISchema S fuel selfRefDoc = Diverge \<and>
   generateGeminiSchema S fuel selfRefDoc = Diverge"
proof (cases fuel)
  case 0
  then show ?thesis
    by (simp add: generateOpenAISchema_def generateGeminiSchema_def selfRefDoc_def bind_simps)
next
  case (Suc n)
  have d: "doc (\<lparr>doc = selfRefDoc, defs = [], stack = {}\<rparr>\<lparr>stack := {''A''}\<rparr>) = selfRefDoc"
    by simp
  have t: "map_of (types selfRefDoc) ''A'' = Some \<lparr>td_name = ''A'',
                  td_node = Intersection [TypeRef ''A'',
                              Object [PropNode ''x'' (Primitive PString) False False] [] False]\<rparr>"
    "map fst (types selfRefDoc) = [''A'']"
    by (simp_all add: selfRefDoc_def)
  show ?thesis unfolding Suc generateOpenAISchema_def generateGeminiSchema_def
    using selfRef_emit_diverges[OF d, of S n]
    by (simp add: t bind_simps)
qed

section \<open>The schema of \<open>never\<close>\<close>

lemma emitObjectOpenAI_type:
  "emitObjectOpenAI S n c obj = Ret (s, c') \<Longrightarrow> field s ''type'' = Some (JStr ''object'')"
  by (cases n) (auto simp: bind_Ret_iff)

lemma emitObjectGemini_type:
  "emitObjectGemini S n c obj = Ret (s, c') \<Longrightarrow> field s ''type'' = Some (JStr ''object'')"
  by (cases n) (auto simp: bind_Ret_iff)

lemma isNeverSchema_primitive: "isNeverSchema (primitiveToSchema p) \<longleftrightarrow> p = PNever"
  by (cases p) (simp_all add: isNeverSchema_def)

lemma isNeverSchema_emitOpenAI:
  assumes "emitOpenAI S n c node = Ret (s, c')" "isNeverSchema s"
  shows "node = Primitive PNever"
proof (cases n)
  case 0
  with assms show ?thesis by simp
next
  case (Suc m)
  show ?thesis
  proof (cases node)
    case (Primitive p)
    with assms Suc show ?thesis by (auto simp: isNeverSchema_primitive)
  next
    case (UnionT members)
    with assms Suc show ?thesis
      by (auto simp: bind_Ret_iff isNeverSchema_def Let_def split: if_splits option.splits)
  next
    case (Intersection members)
    with assms Suc obtain obj where "emitObjectOpenAI S m c obj = Ret (s, c')"
      by (auto simp: bind_Ret_iff)
    from emitObjectOpenAI_type[OF this] assms(2) show ?thesis by (simp add: isNeverSchema_def)
  next
    case (Object ps sigs cl)
    with assms Suc have "emitObjectOpenAI S m c \<lparr>o_props = ps, o_indexSigs = sigs, o_closed = cl\<rparr> = Ret (s, c')"
      by simp
    from emitObjectOpenAI_type[OF this] assms(2) show ?thesis by (simp add: isNeverSchema_def)
  qed (use assms Suc in \<open>auto simp: bind_Ret_iff isNeverSchema_def\<close>)
qed

lemma isNeverSchema_emitGemini:
  assumes "emitGemini S n c node = Ret (s, c')" "isNeverSchema s"
  shows "node = Primitive PNever"
proof (cases n)
  case 0
  with assms show ?thesis by simp
next
  case (Suc m)
  show ?thesis
  proof (cases node)
    case (Primitive p)
    with assms Suc show ?thesis by (auto simp: isNeverSchema_primitive)
  next
    case (UnionT members)
    with assms Suc show ?thesis
      by (auto simp: bind_Ret_iff isNeverSchema_def Let_def split: if_splits option.splits)
  next
    case (Intersection members)
    with assms Suc obtain obj where "emitObjectGemini S m c obj = Ret (s, c')"
      by (auto simp: bind_Ret_iff)
    from emitObjectGemini_type[OF this] assms(2) show ?thesis by (simp add: isNeverSchema_def)
  next
    case (Object ps sigs cl)
    with assms Suc have "emitObjectGemini S m c \<lparr>o_props = ps, o_indexSigs = sigs, o_closed = cl\<rparr> = Ret (s, c')"
      by simp
    from emitObjectGemini_type[OF this] assms(2) show ?thesis by (simp add: isNeverSchema_def)
  qed (use assms Suc in \<open>auto simp: bind_Ret_iff isNeverSchema_def\<close>)
qed

section \<open>The loop bodies by name\<close>

text \<open>
  The bodies of the loops of \<^verbatim>\<open>emitObject\<close> and of the generators, as functions of the
  emitter \<open>e\<close> they call, so that the loops can be reasoned about one at a time.
\<close>

definition keyStepOpenAI where
  "keyStepOpenAI e S idx =
     (\<lambda>(c, properties, required) key.
                    let keyName = literalString S key in
                    bind (e c (i_valueType idx)) (\<lambda>(base, c').
                      let withArray = (if i_isArray idx then arrayOf base else base) in
                      Ret (c',
                           setProperty keyName
                             (if i_optional idx then makeNullable withArray else withArray)
                             properties,
                           required @ [keyName])))"

definition sigStepOpenAI where
  "sigStepOpenAI e S =
          (\<lambda>(c, properties, required) idx.
             if i_kind idx = KString then
               (if i_optional idx then
                  bind (e c (i_valueType idx)) (\<lambda>(s, c').
                    if isNeverSchema s then Ret (c', properties, required)
                    else Throw StringIndexSignaturesNotSupported)
                else Throw StringIndexSignaturesNotSupported)
             else
               foldM (keyStepOpenAI e S idx)
                 (c, properties, required)
                 (case i_keys idx of None \<Rightarrow> [] | Some ks \<Rightarrow> ks))"

definition propStepOpenAI where
  "propStepOpenAI e =
               (\<lambda>(c, properties, required) p.
                  bind (e c (p_type p)) (\<lambda>(base, c').
                    let withArray = (if p_isArray p then arrayOf base else base) in
                    Ret (c',
                         setProperty (p_name p)
                           (if p_optional p then makeNullable withArray else withArray)
                           properties,
                         required @ [p_name p])))"

definition symbolStepOpenAI where
  "symbolStepOpenAI e =
               (\<lambda>(c, properties, required) sym.
                  bind (e c (s_type sym)) (\<lambda>(baseSchema, c').
                    let withArray = (if s_isArray sym then arrayOf baseSchema else baseSchema);
                        finalSchema = (if s_optional sym then makeNullable withArray else withArray)
                    in Ret (c', setProperty (s_name sym) finalSchema properties,
                            required @ [s_name sym])))"

definition objectSchema :: "(string \<times> json) list \<Rightarrow> string list \<Rightarrow> json \<Rightarrow> json" where
  "objectSchema properties required additional =
     JObj [(''type'', JStr ''object''),
           (''properties'', JObj properties),
           (''required'', JArr (map JStr required)),
           (''additionalProperties'', additional)]"

lemma emitObjectOpenAI_Suc:
  "emitObjectOpenAI S (Suc n) ctx obj =
     bind (foldM (sigStepOpenAI (emitOpenAI S n) S) (ctx, [], []) (o_indexSigs obj))
       (\<lambda>(c, properties, required).
          bind (foldM (propStepOpenAI (emitOpenAI S n)) (c, properties, required) (o_props obj))
            (\<lambda>(c, properties, required). Ret (objectSchema properties required (JBool False), c)))"
  unfolding sigStepOpenAI_def keyStepOpenAI_def propStepOpenAI_def objectSchema_def
  by (simp only: emitObjectOpenAI.simps)

lemma generateOpenAISchema_steps:
  "generateOpenAISchema S fuel d =
     bind (foldM (ensureDefOpenAI S fuel) \<lparr>doc = d, defs = [], stack = {}\<rparr> (map fst (types d)))
       (\<lambda>ctx.
          bind (foldM (symbolStepOpenAI (emitOpenAI S fuel)) (ctx, [], []) (symbols d))
            (\<lambda>(c, properties, required).
               Ret (JObj [(''type'', JStr ''object''),
                          (''properties'', JObj properties),
                          (''required'', JArr (map JStr required)),
                          (''additionalProperties'', JBool False),
                          (''$defs'', JObj (defs c))])))"
  unfolding symbolStepOpenAI_def generateOpenAISchema_def by (rule refl)

definition keyStepGemini where
  "keyStepGemini e S idx =
                 (\<lambda>(c, properties, required, additionalProps) key.
                    let keyName = literalString S key in
                    bind (e c (i_valueType idx)) (\<lambda>(base, c').
                      let withArray = (if i_isArray idx then arrayOf base else base) in
                      Ret (c',
                           setProperty keyName withArray properties,
                           (if \<not> i_optional idx then required @ [keyName] else required),
                           additionalProps)))"

definition sigStepGemini where
  "sigStepGemini e S =
          (\<lambda>(c, properties, required, additionalProps) idx.
             if i_kind idx = KString then
               (if i_optional idx then
                  bind (e c (i_valueType idx)) (\<lambda>(s, c').
                    if isNeverSchema s then Ret (c', properties, required, JBool False)
                    else
                      bind (e c' (i_valueType idx)) (\<lambda>(base, c'').
                        let valSchema = (if i_isArray idx then arrayOf base else base) in
                        Ret (c'', properties, required, valSchema)))
                else
                  bind (e c (i_valueType idx)) (\<lambda>(base, c'').
                    let valSchema = (if i_isArray idx then arrayOf base else base) in
                    Ret (c'', properties, required, valSchema)))
             else
               foldM (keyStepGemini e S idx)
                 (c, properties, required, additionalProps)
                 (case i_keys idx of None \<Rightarrow> [] | Some ks \<Rightarrow> ks))"

definition propStepGemini where
  "propStepGemini e =
               (\<lambda>(c, properties, required) p.
                  bind (e c (p_type p)) (\<lambda>(base, c').
                    let withArray = (if p_isArray p then arrayOf base else base) in
                    Ret (c',
                         setProperty (p_name p) withArray properties,
                         (if \<not> p_optional p then required @ [p_name p] else required))))"

definition symbolStepGemini where
  "symbolStepGemini e =
               (\<lambda>(c, properties, required) sym.
                  bind (e c (s_type sym)) (\<lambda>(base, c').
                    let withArray = (if s_isArray sym then arrayOf base else base) in
                    Ret (c', setProperty (s_name sym) withArray properties,
                         (if \<not> s_optional sym then required @ [s_name sym] else required))))"

lemma emitObjectGemini_Suc:
  "emitObjectGemini S (Suc n) ctx obj =
     bind (foldM (sigStepGemini (emitGemini S n) S) (ctx, [], [], JBool (\<not> o_closed obj)) (o_indexSigs obj))
       (\<lambda>(c, properties, required, additionalProps).
          bind (foldM (propStepGemini (emitGemini S n)) (c, properties, required) (o_props obj))
            (\<lambda>(c, properties, required). Ret (objectSchema properties required additionalProps, c)))"
  unfolding sigStepGemini_def keyStepGemini_def propStepGemini_def objectSchema_def
  by (simp only: emitObjectGemini.simps)

lemma generateGeminiSchema_steps:
  "generateGeminiSchema S fuel d =
     bind (foldM (ensureDefGemini S fuel) \<lparr>doc = d, defs = [], stack = {}\<rparr> (map fst (types d)))
       (\<lambda>ctx.
          bind (foldM (symbolStepGemini (emitGemini S fuel)) (ctx, [], []) (symbols d))
            (\<lambda>(c, properties, required).
               Ret (JObj [(''type'', JStr ''object''),
                          (''properties'', JObj properties),
                          (''required'', JArr (map JStr required)),
                          (''additionalProperties'', JBool False),
                          (''$defs'', JObj (defs c))])))"
  unfolding symbolStepGemini_def generateGeminiSchema_def by (rule refl)

section \<open>Emission as a sequence of calls\<close>

type_synonym entry = "string \<times> bool \<times> bool"

datatype role = Entry entry | Probe | Closure | MapValue bool

lemma bind_assoc: "bind (bind m f) g = bind m (\<lambda>x. bind (f x) g)"
  by (cases m) (simp_all add: bind_def)

lemma bind_Ret_right: "bind m Ret = m"
  by (cases m) (simp_all add: bind_def)

lemma bind_cong_Ret:
  assumes "\<And>x. m = Ret x \<Longrightarrow> f x = g x"
  shows "bind m f = bind m g"
  using assms by (cases m) (simp_all add: bind_def)

lemma mapM_st_length: "mapM_st f s xs = Ret (bs, s') \<Longrightarrow> length bs = length xs"
proof (induction xs arbitrary: s bs)
  case Nil
  then show ?case by simp
next
  case (Cons x xs)
  from Cons.prems obtain y s1 ys where "mapM_st f s1 xs = Ret (ys, s')" "bs = y # ys"
    by (auto simp: bind_Ret_iff)
  with Cons.IH show ?case by auto
qed

lemma mapM_st_single: "mapM_st f s [x] = bind (f s x) (\<lambda>(y, s'). Ret ([y], s'))"
  by (simp add: bind_simps)

lemma mapM_st_append:
  "mapM_st f s (xs @ ys) =
     bind (mapM_st f s xs) (\<lambda>(bs, s1). bind (mapM_st f s1 ys) (\<lambda>(bs', s2). Ret (bs @ bs', s2)))"
proof (induction xs arbitrary: s)
  case Nil
  show ?case by (cases "mapM_st f s ys") (auto simp: bind_simps)
next
  case (Cons x xs)
  show ?case
  proof (cases "f s x")
    case (Ret r)
    obtain y s1 where r: "r = (y, s1)" by (cases r) auto
    show ?thesis
    proof (cases "mapM_st f s1 xs")
      case Ret1: (Ret r1)
      obtain bs s2 where r1: "r1 = (bs, s2)" by (cases r1) auto
      show ?thesis
        by (cases "mapM_st f s2 ys") (auto simp: Ret r Ret1 r1 Cons bind_simps)
    qed (simp_all add: Ret r Cons bind_simps)
  qed (simp_all add: bind_simps)
qed

lemma foldM_append:
  "foldM f s (xs @ ys) = bind (foldM f s xs) (\<lambda>s'. foldM f s' ys)"
proof (induction xs arbitrary: s)
  case Nil
  show ?case by (simp add: bind_simps)
next
  case (Cons x xs)
  show ?case by (cases "f s x") (simp_all add: Cons bind_simps)
qed

text \<open>
  A loop whose body makes the calls \<open>g x\<close> of the emitter, one after the other, and then
  updates the rest of its state from the schemas they return, makes the calls of all its
  rounds and then all the updates.
\<close>

lemma foldM_calls:
  assumes step: "\<And>c a x. x \<in> set xs \<Longrightarrow> f (c, a) x =
      bind (mapM_st e c (map fst (g x))) (\<lambda>(bs, c'). Ret (c', foldl h a (zip (map snd (g x)) bs)))"
  shows "foldM f (c, a) xs =
      bind (mapM_st e c (map fst (concat (map g xs))))
        (\<lambda>(bs, c'). Ret (c', foldl h a (zip (map snd (concat (map g xs))) bs)))"
  using step
proof (induction xs arbitrary: c a)
  case Nil
  show ?case by (simp add: bind_simps)
next
  case (Cons x xs)
  have IH: "foldM f (c1, a1) xs =
      bind (mapM_st e c1 (map fst (concat (map g xs))))
        (\<lambda>(bs, c'). Ret (c', foldl h a1 (zip (map snd (concat (map g xs))) bs)))" for c1 a1
    by (rule Cons.IH) (simp add: Cons.prems)
  have st: "f (c, a) x =
      bind (mapM_st e c (map fst (g x))) (\<lambda>(bs, c'). Ret (c', foldl h a (zip (map snd (g x)) bs)))"
    by (rule Cons.prems) simp
  show ?case
  proof (cases "mapM_st e c (map fst (g x))")
    case (Ret r)
    obtain bs c1 where r: "r = (bs, c1)" by (cases r) auto
    from Ret r have len: "length bs = length (g x)" by (auto dest: mapM_st_length)
    show ?thesis
    proof (cases "mapM_st e c1 (map fst (concat (map g xs)))")
      case Ret2: (Ret r2)
      obtain bs2 c2 where r2: "r2 = (bs2, c2)" by (cases r2) auto
      show ?thesis
        by (simp add: st IH Ret r Ret2 r2 mapM_st_append bind_simps len)
    qed (simp_all add: st IH Ret r mapM_st_append bind_simps)
  qed (simp_all add: st mapM_st_append bind_simps)
qed

text \<open>
  An entry is a member of an object (or a symbol of the document) that the emitters turn
  into a property: its key, its \<open>optional\<close> flag and its \<open>isArray\<close> flag.
\<close>

definition wrapOpenAI :: "entry \<Rightarrow> json \<Rightarrow> json" where
  "wrapOpenAI = (\<lambda>(k, opt, arr) base.
     if opt then makeNullable (if arr then arrayOf base else base)
     else (if arr then arrayOf base else base))"

definition wrapGemini :: "entry \<Rightarrow> json \<Rightarrow> json" where
  "wrapGemini = (\<lambda>(k, opt, arr) base. if arr then arrayOf base else base)"

definition requiredKeys :: "bool \<Rightarrow> entry list \<Rightarrow> string list" where
  "requiredKeys everything es = map fst (filter (\<lambda>(k, opt, arr). everything \<or> \<not> opt) es)"

definition keyCalls :: "(number \<Rightarrow> string) \<Rightarrow> IndexSigNode \<Rightarrow> (TypeNode \<times> role) list" where
  "keyCalls S idx =
     map (\<lambda>key. (i_valueType idx, Entry (literalString S key, i_optional idx, i_isArray idx)))
       (case i_keys idx of None \<Rightarrow> [] | Some ks \<Rightarrow> ks)"

definition acceptedOpenAI :: "IndexSigNode \<Rightarrow> bool" where
  "acceptedOpenAI idx =
     (if i_kind idx = KString then i_optional idx \<and> i_valueType idx = Primitive PNever else True)"

definition sigCallsOpenAI :: "(number \<Rightarrow> string) \<Rightarrow> IndexSigNode \<Rightarrow> (TypeNode \<times> role) list" where
  "sigCallsOpenAI S idx =
     (if i_kind idx = KString then [(i_valueType idx, Closure)] else keyCalls S idx)"

definition sigCallsGemini :: "(number \<Rightarrow> string) \<Rightarrow> IndexSigNode \<Rightarrow> (TypeNode \<times> role) list" where
  "sigCallsGemini S idx =
     (if i_kind idx = KString then
        (if i_optional idx then
           (if i_valueType idx = Primitive PNever then [(i_valueType idx, Closure)]
            else [(i_valueType idx, Probe), (i_valueType idx, MapValue (i_isArray idx))])
         else [(i_valueType idx, MapValue (i_isArray idx))])
      else keyCalls S idx)"

definition propCall :: "PropNode \<Rightarrow> TypeNode \<times> role" where
  "propCall p = (p_type p, Entry (p_name p, p_optional p, p_isArray p))"

definition symbolCall :: "SymbolDef \<Rightarrow> TypeNode \<times> role" where
  "symbolCall sd = (s_type sd, Entry (s_name sd, s_optional sd, s_isArray sd))"

definition callsOpenAI :: "(number \<Rightarrow> string) \<Rightarrow> ObjectNode \<Rightarrow> (TypeNode \<times> role) list" where
  "callsOpenAI S obj = concat (map (sigCallsOpenAI S) (o_indexSigs obj)) @ map propCall (o_props obj)"

definition callsGemini :: "(number \<Rightarrow> string) \<Rightarrow> ObjectNode \<Rightarrow> (TypeNode \<times> role) list" where
  "callsGemini S obj = concat (map (sigCallsGemini S) (o_indexSigs obj)) @ map propCall (o_props obj)"

fun applyEntries ::
  "(entry \<Rightarrow> json \<Rightarrow> json) \<Rightarrow> bool \<Rightarrow> (string \<times> json) list \<times> string list \<Rightarrow> role \<times> json \<Rightarrow>
   (string \<times> json) list \<times> string list" where
  "applyEntries w ev (ps, rq) (Entry e, b) = (setProperty (fst e) (w e b) ps, rq @ requiredKeys ev [e])"
| "applyEntries w ev (ps, rq) (Probe, b) = (ps, rq)"
| "applyEntries w ev (ps, rq) (Closure, b) = (ps, rq)"
| "applyEntries w ev (ps, rq) (MapValue arr, b) = (ps, rq)"

fun applyAdditional :: "json \<Rightarrow> role \<times> json \<Rightarrow> json" where
  "applyAdditional ap (Entry e, b) = ap"
| "applyAdditional ap (Probe, b) = ap"
| "applyAdditional ap (Closure, b) = JBool False"
| "applyAdditional ap (MapValue arr, b) = (if arr then arrayOf b else b)"

definition applyGemini ::
  "(string \<times> json) list \<times> string list \<times> json \<Rightarrow> role \<times> json \<Rightarrow>
   (string \<times> json) list \<times> string list \<times> json" where
  "applyGemini = (\<lambda>(ps, rq, ap) rb.
     (fst (applyEntries wrapGemini False (ps, rq) rb),
      snd (applyEntries wrapGemini False (ps, rq) rb),
      applyAdditional ap rb))"

definition neverTest :: "(EmitCtx \<Rightarrow> TypeNode \<Rightarrow> (json \<times> EmitCtx) res) \<Rightarrow> bool" where
  "neverTest e = (\<forall>c node s c'. e c node = Ret (s, c') \<longrightarrow> (isNeverSchema s \<longleftrightarrow> node = Primitive PNever))"

lemma emitOpenAI_never:
  "emitOpenAI S n c (Primitive PNever) = Ret (s, c') \<Longrightarrow> isNeverSchema s"
  by (cases n) (auto simp: isNeverSchema_def)

lemma emitGemini_never:
  "emitGemini S n c (Primitive PNever) = Ret (s, c') \<Longrightarrow> isNeverSchema s"
  by (cases n) (auto simp: isNeverSchema_def)

lemma neverTest_emitOpenAI: "neverTest (emitOpenAI S n)"
  unfolding neverTest_def using isNeverSchema_emitOpenAI emitOpenAI_never by blast

lemma neverTest_emitGemini: "neverTest (emitGemini S n)"
  unfolding neverTest_def using isNeverSchema_emitGemini emitGemini_never by blast

lemma concat_singletons: "concat (map (\<lambda>x. [f x]) xs) = map f xs"
  by (induction xs) auto

subsection \<open>The loops of the OpenAI emitter\<close>

lemma keyStepOpenAI_calls:
  "keyStepOpenAI e S idx (c, a) key =
     bind (mapM_st e c
             (map fst [(i_valueType idx, Entry (literalString S key, i_optional idx, i_isArray idx))]))
       (\<lambda>(bs, c'). Ret (c', foldl (applyEntries wrapOpenAI True) a
          (zip (map snd [(i_valueType idx, Entry (literalString S key, i_optional idx, i_isArray idx))]) bs)))"
proof -
  obtain ps rq where a: "a = (ps, rq)" by (cases a) auto
  show ?thesis unfolding a keyStepOpenAI_def
    by (cases "e c (i_valueType idx)")
       (auto simp: bind_simps Let_def wrapOpenAI_def requiredKeys_def)
qed

lemma propStepOpenAI_calls:
  "propStepOpenAI e (c, a) p =
     bind (mapM_st e c (map fst [propCall p]))
       (\<lambda>(bs, c'). Ret (c', foldl (applyEntries wrapOpenAI True) a (zip (map snd [propCall p]) bs)))"
proof -
  obtain ps rq where a: "a = (ps, rq)" by (cases a) auto
  show ?thesis unfolding a propStepOpenAI_def propCall_def
    by (cases "e c (p_type p)")
       (auto simp: bind_simps Let_def wrapOpenAI_def requiredKeys_def)
qed

lemma symbolStepOpenAI_calls:
  "symbolStepOpenAI e (c, a) sd =
     bind (mapM_st e c (map fst [symbolCall sd]))
       (\<lambda>(bs, c'). Ret (c', foldl (applyEntries wrapOpenAI True) a (zip (map snd [symbolCall sd]) bs)))"
proof -
  obtain ps rq where a: "a = (ps, rq)" by (cases a) auto
  show ?thesis unfolding a symbolStepOpenAI_def symbolCall_def
    by (cases "e c (s_type sd)")
       (auto simp: bind_simps Let_def wrapOpenAI_def requiredKeys_def)
qed

lemma sigStepOpenAI_calls:
  assumes "neverTest e" "acceptedOpenAI idx"
  shows "sigStepOpenAI e S (c, a) idx =
     bind (mapM_st e c (map fst (sigCallsOpenAI S idx)))
       (\<lambda>(bs, c'). Ret (c', foldl (applyEntries wrapOpenAI True) a (zip (map snd (sigCallsOpenAI S idx)) bs)))"
proof -
  obtain ps rq where a: "a = (ps, rq)" by (cases a) auto
  show ?thesis
  proof (cases "i_kind idx = KString")
    case True
    with assms(2) have o: "i_optional idx" and v: "i_valueType idx = Primitive PNever"
      by (simp_all add: acceptedOpenAI_def)
    show ?thesis
    proof (cases "e c (Primitive PNever)")
      case (Ret r)
      obtain s c1 where r: "r = (s, c1)" by (cases r) auto
      from assms(1) Ret r have "isNeverSchema s" unfolding neverTest_def by blast
      then show ?thesis unfolding a sigStepOpenAI_def sigCallsOpenAI_def
        by (simp add: True o v Ret r bind_simps)
    qed (simp_all add: a sigStepOpenAI_def sigCallsOpenAI_def True o v bind_simps)
  next
    case False
    have "foldM (keyStepOpenAI e S idx) (c, a) (case i_keys idx of None \<Rightarrow> [] | Some ks \<Rightarrow> ks) =
      bind (mapM_st e c (map fst (concat (map
               (\<lambda>key. [(i_valueType idx, Entry (literalString S key, i_optional idx, i_isArray idx))])
               (case i_keys idx of None \<Rightarrow> [] | Some ks \<Rightarrow> ks)))))
        (\<lambda>(bs, c'). Ret (c', foldl (applyEntries wrapOpenAI True) a (zip (map snd (concat (map
               (\<lambda>key. [(i_valueType idx, Entry (literalString S key, i_optional idx, i_isArray idx))])
               (case i_keys idx of None \<Rightarrow> [] | Some ks \<Rightarrow> ks)))) bs)))"
      by (rule foldM_calls) (rule keyStepOpenAI_calls)
    then show ?thesis unfolding a sigStepOpenAI_def sigCallsOpenAI_def keyCalls_def
      by (simp add: False concat_singletons)
  qed
qed

fun entriesOf :: "(role \<times> json) list \<Rightarrow> (entry \<times> json) list" where
  "entriesOf [] = []"
| "entriesOf ((Entry e, b) # rbs) = (e, b) # entriesOf rbs"
| "entriesOf ((Probe, b) # rbs) = entriesOf rbs"
| "entriesOf ((Closure, b) # rbs) = entriesOf rbs"
| "entriesOf ((MapValue arr, b) # rbs) = entriesOf rbs"

definition assignAll ::
  "(entry \<Rightarrow> json \<Rightarrow> json) \<Rightarrow> (entry \<times> json) list \<Rightarrow> (string \<times> json) list \<Rightarrow> (string \<times> json) list" where
  "assignAll w ebs ps = foldl (\<lambda>m (e, b). setProperty (fst e) (w e b) m) ps ebs"

definition additionalFrom :: "json \<Rightarrow> (role \<times> json) list \<Rightarrow> json" where
  "additionalFrom ap rbs = foldl applyAdditional ap rbs"

definition schemaOpenAI :: "(role \<times> json) list \<Rightarrow> json" where
  "schemaOpenAI rbs =
     objectSchema (assignAll wrapOpenAI (entriesOf rbs) [])
       (requiredKeys True (map fst (entriesOf rbs))) (JBool False)"

definition schemaGemini :: "bool \<Rightarrow> (role \<times> json) list \<Rightarrow> json" where
  "schemaGemini cl rbs =
     objectSchema (assignAll wrapGemini (entriesOf rbs) [])
       (requiredKeys False (map fst (entriesOf rbs))) (additionalFrom (JBool (\<not> cl)) rbs)"

lemma entriesOf_append: "entriesOf (xs @ ys) = entriesOf xs @ entriesOf ys"
  by (induction xs rule: entriesOf.induct) simp_all

lemma requiredKeys_append: "requiredKeys ev (xs @ ys) = requiredKeys ev xs @ requiredKeys ev ys"
  by (simp add: requiredKeys_def)

lemma foldl_applyEntries:
  "foldl (applyEntries w ev) (ps, rq) rbs =
     (assignAll w (entriesOf rbs) ps, rq @ requiredKeys ev (map fst (entriesOf rbs)))"
proof (induction rbs arbitrary: ps rq)
  case Nil
  show ?case by (simp add: assignAll_def requiredKeys_def)
next
  case (Cons rb rbs)
  obtain r b where rb: "rb = (r, b)" by (cases rb) auto
  show ?case unfolding rb
    by (cases r) (simp_all add: Cons assignAll_def requiredKeys_def)
qed

lemma foldl_applyGemini:
  "foldl applyGemini (ps, rq, ap) rbs =
     (assignAll wrapGemini (entriesOf rbs) ps, rq @ requiredKeys False (map fst (entriesOf rbs)),
      additionalFrom ap rbs)"
proof (induction rbs arbitrary: ps rq ap)
  case Nil
  show ?case by (simp add: assignAll_def requiredKeys_def additionalFrom_def)
next
  case (Cons rb rbs)
  obtain r b where rb: "rb = (r, b)" by (cases rb) auto
  have step: "applyGemini (ps, rq, ap) (r', b) =
      (fst (applyEntries wrapGemini False (ps, rq) (r', b)),
       snd (applyEntries wrapGemini False (ps, rq) (r', b)), applyAdditional ap (r', b))" for r'
    by (simp add: applyGemini_def)
  show ?case unfolding rb
    by (cases r) (simp_all add: step Cons assignAll_def requiredKeys_def additionalFrom_def)
qed

fun rejectedCalls :: "(number \<Rightarrow> string) \<Rightarrow> IndexSigNode list \<Rightarrow> TypeNode list option" where
  "rejectedCalls S [] = None"
| "rejectedCalls S (idx # sigs) =
     (if acceptedOpenAI idx then
        map_option (\<lambda>cs. map fst (sigCallsOpenAI S idx) @ cs) (rejectedCalls S sigs)
      else Some (if i_optional idx then [i_valueType idx] else []))"

lemma sigStepOpenAI_rejected:
  assumes "neverTest e" "\<not> acceptedOpenAI idx"
  shows "sigStepOpenAI e S (c, a) idx =
     bind (mapM_st e c (if i_optional idx then [i_valueType idx] else []))
       (\<lambda>r. Throw StringIndexSignaturesNotSupported)"
proof -
  obtain ps rq where a: "a = (ps, rq)" by (cases a) auto
  from assms(2) have k: "i_kind idx = KString"
    and v: "i_optional idx \<Longrightarrow> i_valueType idx \<noteq> Primitive PNever"
    by (auto simp: acceptedOpenAI_def split: if_splits)
  show ?thesis
  proof (cases "i_optional idx")
    case False
    then show ?thesis unfolding a sigStepOpenAI_def by (simp add: k bind_simps)
  next
    case True
    show ?thesis
    proof (cases "e c (i_valueType idx)")
      case (Ret r)
      obtain s c1 where r: "r = (s, c1)" by (cases r) auto
      from assms(1) Ret r v[OF True] have "\<not> isNeverSchema s" unfolding neverTest_def by blast
      then show ?thesis unfolding a sigStepOpenAI_def
        by (simp add: k True Ret r bind_simps)
    qed (simp_all add: a sigStepOpenAI_def k True bind_simps)
  qed
qed

lemma foldM_sigStepOpenAI:
  assumes nt: "neverTest e"
  shows "foldM (sigStepOpenAI e S) (c, a) sigs =
     (case rejectedCalls S sigs of
        None \<Rightarrow>
          bind (mapM_st e c (map fst (concat (map (sigCallsOpenAI S) sigs))))
            (\<lambda>(bs, c'). Ret (c', foldl (applyEntries wrapOpenAI True) a
               (zip (map snd (concat (map (sigCallsOpenAI S) sigs))) bs)))
      | Some calls \<Rightarrow>
          bind (mapM_st e c calls) (\<lambda>r. Throw StringIndexSignaturesNotSupported))"
proof (induction sigs arbitrary: c a)
  case Nil
  show ?case by (simp add: bind_simps)
next
  case (Cons idx sigs)
  show ?case
  proof (cases "acceptedOpenAI idx")
    case False
    show ?thesis
      by (cases "mapM_st e c (if i_optional idx then [i_valueType idx] else [])")
         (simp_all add: False sigStepOpenAI_rejected[OF nt False] bind_simps del: mapM_st.simps)
  next
    case True
    note st = sigStepOpenAI_calls[OF nt True, of S c a]
    show ?thesis
    proof (cases "mapM_st e c (map fst (sigCallsOpenAI S idx))")
      case (Ret r)
      obtain bs c1 where r: "r = (bs, c1)" by (cases r) auto
      from Ret r have len: "length bs = length (sigCallsOpenAI S idx)" by (auto dest: mapM_st_length)
      show ?thesis
      proof (cases "rejectedCalls S sigs")
        case None
        show ?thesis
          by (cases "mapM_st e c1 (map fst (concat (map (sigCallsOpenAI S) sigs)))")
             (auto simp: True st Ret r None Cons mapM_st_append bind_simps len)
      next
        case (Some calls)
        show ?thesis
          by (cases "mapM_st e c1 calls")
             (auto simp: True st Ret r Some Cons mapM_st_append bind_simps)
      qed
    next
      case (Throw err)
      then show ?thesis
        by (cases "rejectedCalls S sigs") (simp_all add: True st mapM_st_append bind_simps)
    next
      case Diverge
      then show ?thesis
        by (cases "rejectedCalls S sigs") (simp_all add: True st mapM_st_append bind_simps)
    qed
  qed
qed

lemma rejectedCalls_None: "rejectedCalls S sigs = None \<longleftrightarrow> list_all acceptedOpenAI sigs"
  by (induction sigs) auto

lemma zip_roles:
  "length bs = length xs \<Longrightarrow>
   zip (map snd (xs @ ys)) (bs @ bs') = zip (map snd xs) bs @ zip (map snd ys) bs'"
  by simp

lemma emitObjectOpenAI_calls:
  "emitObjectOpenAI S (Suc n) ctx obj =
     (case rejectedCalls S (o_indexSigs obj) of
        Some calls \<Rightarrow>
          bind (mapM_st (emitOpenAI S n) ctx calls) (\<lambda>r. Throw StringIndexSignaturesNotSupported)
      | None \<Rightarrow>
          bind (mapM_st (emitOpenAI S n) ctx (map fst (callsOpenAI S obj)))
            (\<lambda>(bs, c'). Ret (schemaOpenAI (zip (map snd (callsOpenAI S obj)) bs), c')))"
proof (cases "rejectedCalls S (o_indexSigs obj)")
  case (Some calls)
  show ?thesis
    unfolding emitObjectOpenAI_Suc foldM_sigStepOpenAI[OF neverTest_emitOpenAI] Some
    by (cases "mapM_st (emitOpenAI S n) ctx calls") (simp_all add: bind_simps)
next
  case None
  let ?e = "emitOpenAI S n"
  let ?h = "applyEntries wrapOpenAI True"
  define A where "A = concat (map (sigCallsOpenAI S) (o_indexSigs obj))"
  define B where "B = map propCall (o_props obj)"
  have props: "foldM (propStepOpenAI ?e) (c1, a1) (o_props obj) =
      bind (mapM_st ?e c1 (map fst B))
        (\<lambda>(bs, c'). Ret (c', foldl ?h a1 (zip (map snd B) bs)))" for c1 a1
    using foldM_calls[of "o_props obj" "propStepOpenAI ?e" ?e "\<lambda>p. [propCall p]" ?h c1 a1]
    by (simp add: propStepOpenAI_calls concat_singletons B_def)
  have sigs: "foldM (sigStepOpenAI ?e S) (ctx, [], []) (o_indexSigs obj) =
      bind (mapM_st ?e ctx (map fst A))
        (\<lambda>(bs, c'). Ret (c', foldl ?h ([], []) (zip (map snd A) bs)))"
    unfolding foldM_sigStepOpenAI[OF neverTest_emitOpenAI] None A_def by simp
  have L: "emitObjectOpenAI S (Suc n) ctx obj =
      bind (mapM_st ?e ctx (map fst A)) (\<lambda>r.
        bind (mapM_st ?e (snd r) (map fst B)) (\<lambda>r2.
          Ret (schemaOpenAI (zip (map snd A) (fst r) @ zip (map snd B) (fst r2)), snd r2)))"
    unfolding emitObjectOpenAI_Suc sigs
    by (simp add: props bind_assoc bind_simps split_def schemaOpenAI_def foldl_applyEntries
          entriesOf_append requiredKeys_append assignAll_def)
  have R: "bind (mapM_st ?e ctx (map fst (A @ B)))
            (\<lambda>(bs, c'). Ret (schemaOpenAI (zip (map snd (A @ B)) bs), c')) =
      bind (mapM_st ?e ctx (map fst A)) (\<lambda>r.
        bind (mapM_st ?e (snd r) (map fst B)) (\<lambda>r2.
          Ret (schemaOpenAI (zip (map snd (A @ B)) (fst r @ fst r2)), snd r2)))"
    by (simp add: mapM_st_append bind_assoc bind_simps split_def del: map_append)
       (simp add: mapM_st_append bind_assoc bind_simps split_def)
  have "bind (mapM_st ?e ctx (map fst A)) (\<lambda>r.
        bind (mapM_st ?e (snd r) (map fst B)) (\<lambda>r2.
          Ret (schemaOpenAI (zip (map snd (A @ B)) (fst r @ fst r2)), snd r2))) =
      bind (mapM_st ?e ctx (map fst A)) (\<lambda>r.
        bind (mapM_st ?e (snd r) (map fst B)) (\<lambda>r2.
          Ret (schemaOpenAI (zip (map snd A) (fst r) @ zip (map snd B) (fst r2)), snd r2)))"
  proof (rule bind_cong_Ret)
    fix r assume "mapM_st ?e ctx (map fst A) = Ret r"
    then have "length (fst r) = length A" using mapM_st_length[of ?e ctx "map fst A" "fst r" "snd r"] by simp
    then show "bind (mapM_st ?e (snd r) (map fst B)) (\<lambda>r2.
          Ret (schemaOpenAI (zip (map snd (A @ B)) (fst r @ fst r2)), snd r2)) =
        bind (mapM_st ?e (snd r) (map fst B)) (\<lambda>r2.
          Ret (schemaOpenAI (zip (map snd A) (fst r) @ zip (map snd B) (fst r2)), snd r2))"
      by (simp add: zip_roles del: map_append)
  qed
  with L R show ?thesis unfolding None callsOpenAI_def A_def B_def by simp
qed

subsection \<open>The loops of the Gemini emitter\<close>

lemma applyGemini_simps:
  "applyGemini (ps, rq, ap) (Entry e, b) =
     (setProperty (fst e) (wrapGemini e b) ps, rq @ requiredKeys False [e], ap)"
  "applyGemini (ps, rq, ap) (Probe, b) = (ps, rq, ap)"
  "applyGemini (ps, rq, ap) (Closure, b) = (ps, rq, JBool False)"
  "applyGemini (ps, rq, ap) (MapValue arr, b) = (ps, rq, if arr then arrayOf b else b)"
  by (simp_all add: applyGemini_def)

lemma keyStepGemini_calls:
  "keyStepGemini e S idx (c, a) key =
     bind (mapM_st e c
             (map fst [(i_valueType idx, Entry (literalString S key, i_optional idx, i_isArray idx))]))
       (\<lambda>(bs, c'). Ret (c', foldl applyGemini a
          (zip (map snd [(i_valueType idx, Entry (literalString S key, i_optional idx, i_isArray idx))]) bs)))"
proof -
  obtain ps rq ap where a: "a = (ps, rq, ap)" by (cases a) auto
  show ?thesis unfolding a keyStepGemini_def
    by (cases "e c (i_valueType idx)")
       (auto simp: bind_simps Let_def wrapGemini_def requiredKeys_def applyGemini_simps)
qed

lemma propStepGemini_calls:
  "propStepGemini e (c, a) p =
     bind (mapM_st e c (map fst [propCall p]))
       (\<lambda>(bs, c'). Ret (c', foldl (applyEntries wrapGemini False) a (zip (map snd [propCall p]) bs)))"
proof -
  obtain ps rq where a: "a = (ps, rq)" by (cases a) auto
  show ?thesis unfolding a propStepGemini_def propCall_def
    by (cases "e c (p_type p)")
       (auto simp: bind_simps Let_def wrapGemini_def requiredKeys_def)
qed

lemma symbolStepGemini_calls:
  "symbolStepGemini e (c, a) sd =
     bind (mapM_st e c (map fst [symbolCall sd]))
       (\<lambda>(bs, c'). Ret (c', foldl (applyEntries wrapGemini False) a (zip (map snd [symbolCall sd]) bs)))"
proof -
  obtain ps rq where a: "a = (ps, rq)" by (cases a) auto
  show ?thesis unfolding a symbolStepGemini_def symbolCall_def
    by (cases "e c (s_type sd)")
       (auto simp: bind_simps Let_def wrapGemini_def requiredKeys_def)
qed

lemma sigStepGemini_calls:
  assumes "neverTest e"
  shows "sigStepGemini e S (c, a) idx =
     bind (mapM_st e c (map fst (sigCallsGemini S idx)))
       (\<lambda>(bs, c'). Ret (c', foldl applyGemini a (zip (map snd (sigCallsGemini S idx)) bs)))"
proof -
  obtain ps rq ap where a: "a = (ps, rq, ap)" by (cases a) auto
  show ?thesis
  proof (cases "i_kind idx = KString")
    case False
    have "foldM (keyStepGemini e S idx) (c, a) (case i_keys idx of None \<Rightarrow> [] | Some ks \<Rightarrow> ks) =
      bind (mapM_st e c (map fst (concat (map
               (\<lambda>key. [(i_valueType idx, Entry (literalString S key, i_optional idx, i_isArray idx))])
               (case i_keys idx of None \<Rightarrow> [] | Some ks \<Rightarrow> ks)))))
        (\<lambda>(bs, c'). Ret (c', foldl applyGemini a (zip (map snd (concat (map
               (\<lambda>key. [(i_valueType idx, Entry (literalString S key, i_optional idx, i_isArray idx))])
               (case i_keys idx of None \<Rightarrow> [] | Some ks \<Rightarrow> ks)))) bs)))"
      by (rule foldM_calls) (rule keyStepGemini_calls)
    then show ?thesis unfolding a sigStepGemini_def sigCallsGemini_def keyCalls_def
      by (simp add: False concat_singletons)
  next
    case True
    show ?thesis
    proof (cases "i_optional idx")
      case False
      show ?thesis unfolding a sigStepGemini_def sigCallsGemini_def
        by (cases "e c (i_valueType idx)")
           (auto simp: True False bind_simps Let_def applyGemini_simps)
    next
      case opt: True
      show ?thesis
      proof (cases "i_valueType idx = Primitive PNever")
        case nv: True
        show ?thesis
        proof (cases "e c (Primitive PNever)")
          case (Ret r)
          obtain s c1 where r: "r = (s, c1)" by (cases r) auto
          from assms Ret r have "isNeverSchema s" unfolding neverTest_def by blast
          then show ?thesis using Ret r unfolding a sigStepGemini_def sigCallsGemini_def
            by (simp add: True opt nv bind_simps applyGemini_simps)
        qed (simp_all add: a sigStepGemini_def sigCallsGemini_def True opt nv bind_simps)
      next
        case nv: False
        show ?thesis
        proof (cases "e c (i_valueType idx)")
          case (Ret r)
          obtain s c1 where r: "r = (s, c1)" by (cases r) auto
          from assms Ret r nv have n: "\<not> isNeverSchema s" unfolding neverTest_def by blast
          show ?thesis unfolding a sigStepGemini_def sigCallsGemini_def
            by (cases "e c1 (i_valueType idx)")
               (auto simp: True opt nv n Ret r bind_simps Let_def applyGemini_simps)
        qed (simp_all add: a sigStepGemini_def sigCallsGemini_def True opt nv bind_simps)
      qed
    qed
  qed
qed

lemma additional_entries:
  "foldl applyAdditional ap (zip (map snd (map propCall ps)) bs) = ap"
proof (induction ps arbitrary: bs)
  case Nil
  show ?case by simp
next
  case (Cons p ps)
  then show ?case by (cases bs) (simp_all add: propCall_def)
qed

lemma emitObjectGemini_calls:
  "emitObjectGemini S (Suc n) ctx obj =
     bind (mapM_st (emitGemini S n) ctx (map fst (callsGemini S obj)))
       (\<lambda>(bs, c'). Ret (schemaGemini (o_closed obj) (zip (map snd (callsGemini S obj)) bs), c'))"
proof -
  let ?e = "emitGemini S n"
  let ?h = "applyEntries wrapGemini False"
  define A where "A = concat (map (sigCallsGemini S) (o_indexSigs obj))"
  define B where "B = map propCall (o_props obj)"
  have props: "foldM (propStepGemini ?e) (c1, a1) (o_props obj) =
      bind (mapM_st ?e c1 (map fst B))
        (\<lambda>(bs, c'). Ret (c', foldl ?h a1 (zip (map snd B) bs)))" for c1 a1
    using foldM_calls[of "o_props obj" "propStepGemini ?e" ?e "\<lambda>p. [propCall p]" ?h c1 a1]
    by (simp add: propStepGemini_calls concat_singletons B_def)
  have sigs: "foldM (sigStepGemini ?e S) (ctx, [], [], JBool (\<not> o_closed obj)) (o_indexSigs obj) =
      bind (mapM_st ?e ctx (map fst A))
        (\<lambda>(bs, c'). Ret (c', foldl applyGemini ([], [], JBool (\<not> o_closed obj)) (zip (map snd A) bs)))"
    unfolding A_def
    by (rule foldM_calls) (rule sigStepGemini_calls[OF neverTest_emitGemini])
  have ad: "additionalFrom ap (xs @ zip (map snd B) bs) = additionalFrom ap xs" for ap xs bs
    by (simp only: B_def additionalFrom_def foldl_append additional_entries)
  have L: "emitObjectGemini S (Suc n) ctx obj =
      bind (mapM_st ?e ctx (map fst A)) (\<lambda>r.
        bind (mapM_st ?e (snd r) (map fst B)) (\<lambda>r2.
          Ret (schemaGemini (o_closed obj) (zip (map snd A) (fst r) @ zip (map snd B) (fst r2)), snd r2)))"
    unfolding emitObjectGemini_Suc sigs
    by (simp add: props bind_assoc bind_simps split_def schemaGemini_def foldl_applyEntries
          foldl_applyGemini entriesOf_append requiredKeys_append ad)
       (simp add: assignAll_def)
  have R: "bind (mapM_st ?e ctx (map fst (A @ B)))
            (\<lambda>(bs, c'). Ret (schemaGemini (o_closed obj) (zip (map snd (A @ B)) bs), c')) =
      bind (mapM_st ?e ctx (map fst A)) (\<lambda>r.
        bind (mapM_st ?e (snd r) (map fst B)) (\<lambda>r2.
          Ret (schemaGemini (o_closed obj) (zip (map snd (A @ B)) (fst r @ fst r2)), snd r2)))"
    by (simp add: mapM_st_append bind_assoc bind_simps split_def del: map_append)
       (simp add: mapM_st_append bind_assoc bind_simps split_def)
  have "bind (mapM_st ?e ctx (map fst A)) (\<lambda>r.
        bind (mapM_st ?e (snd r) (map fst B)) (\<lambda>r2.
          Ret (schemaGemini (o_closed obj) (zip (map snd (A @ B)) (fst r @ fst r2)), snd r2))) =
      bind (mapM_st ?e ctx (map fst A)) (\<lambda>r.
        bind (mapM_st ?e (snd r) (map fst B)) (\<lambda>r2.
          Ret (schemaGemini (o_closed obj) (zip (map snd A) (fst r) @ zip (map snd B) (fst r2)), snd r2)))"
  proof (rule bind_cong_Ret)
    fix r assume "mapM_st ?e ctx (map fst A) = Ret r"
    then have "length (fst r) = length A" using mapM_st_length[of ?e ctx "map fst A" "fst r" "snd r"] by simp
    then show "bind (mapM_st ?e (snd r) (map fst B)) (\<lambda>r2.
          Ret (schemaGemini (o_closed obj) (zip (map snd (A @ B)) (fst r @ fst r2)), snd r2)) =
        bind (mapM_st ?e (snd r) (map fst B)) (\<lambda>r2.
          Ret (schemaGemini (o_closed obj) (zip (map snd A) (fst r) @ zip (map snd B) (fst r2)), snd r2))"
      by (simp add: zip_roles del: map_append)
  qed
  with L R show ?thesis unfolding callsGemini_def A_def B_def by simp
qed

subsection \<open>The root objects\<close>

definition symbolEntry :: "SymbolDef \<Rightarrow> entry" where
  "symbolEntry sd = (s_name sd, s_optional sd, s_isArray sd)"

definition rootSchema :: "(string \<times> json) list \<Rightarrow> string list \<Rightarrow> (string \<times> json) list \<Rightarrow> json" where
  "rootSchema properties required ds =
     JObj [(''type'', JStr ''object''),
           (''properties'', JObj properties),
           (''required'', JArr (map JStr required)),
           (''additionalProperties'', JBool False),
           (''$defs'', JObj ds)]"

lemma entriesOf_symbols:
  "entriesOf (zip (map snd (map symbolCall syms)) bs) = zip (map symbolEntry syms) bs"
proof (induction syms arbitrary: bs)
  case Nil
  show ?case by simp
next
  case (Cons sd syms)
  then show ?case by (cases bs) (simp_all add: symbolCall_def symbolEntry_def)
qed

lemma entriesOf_symbols':
  "entriesOf (zip (map (snd \<circ> symbolCall) syms) bs) = zip (map symbolEntry syms) bs"
  using entriesOf_symbols[of syms bs] by simp

lemma symbols_loop:
  assumes step: "\<And>c a sd. f (c, a) sd =
      bind (mapM_st e c (map fst [symbolCall sd]))
        (\<lambda>(bs, c'). Ret (c', foldl (applyEntries w ev) a (zip (map snd [symbolCall sd]) bs)))"
  shows "bind (foldM f (ctx, [], []) syms) (\<lambda>(c, properties, required). Ret (rootSchema properties required (defs c))) =
     bind (mapM_st e ctx (map s_type syms))
       (\<lambda>(bs, c). Ret (rootSchema (assignAll w (zip (map symbolEntry syms) bs) [])
                          (requiredKeys ev (map symbolEntry syms)) (defs c)))"
proof -
  have 1: "foldM f (ctx, [], []) syms =
      bind (mapM_st e ctx (map fst (map symbolCall syms)))
        (\<lambda>(bs, c'). Ret (c', foldl (applyEntries w ev) ([], []) (zip (map snd (map symbolCall syms)) bs)))"
    using foldM_calls[of syms f e "\<lambda>sd. [symbolCall sd]" "applyEntries w ev" ctx "([], [])"] step
    by (simp add: concat_singletons)
  have 2: "map fst (map symbolCall syms) = map s_type syms"
    by (simp add: symbolCall_def comp_def)
  have "bind (mapM_st e ctx (map s_type syms))
          (\<lambda>r. Ret (rootSchema (assignAll w (zip (map symbolEntry syms) (fst r)) [])
                      (requiredKeys ev (map fst (zip (map symbolEntry syms) (fst r)))) (defs (snd r)))) =
        bind (mapM_st e ctx (map s_type syms))
          (\<lambda>r. Ret (rootSchema (assignAll w (zip (map symbolEntry syms) (fst r)) [])
                      (requiredKeys ev (map symbolEntry syms)) (defs (snd r))))"
  proof (rule bind_cong_Ret)
    fix r assume "mapM_st e ctx (map s_type syms) = Ret r"
    then have "length (fst r) = length syms"
      using mapM_st_length[of e ctx "map s_type syms" "fst r" "snd r"] by simp
    then have "map fst (zip (map symbolEntry syms) (fst r)) = map symbolEntry syms"
      by simp
    then show "Ret (rootSchema (assignAll w (zip (map symbolEntry syms) (fst r)) [])
                      (requiredKeys ev (map fst (zip (map symbolEntry syms) (fst r)))) (defs (snd r))) =
        Ret (rootSchema (assignAll w (zip (map symbolEntry syms) (fst r)) [])
                      (requiredKeys ev (map symbolEntry syms)) (defs (snd r)))"
      by simp
  qed
  then show ?thesis unfolding 1 2
    by (simp add: bind_assoc bind_simps split_def foldl_applyEntries entriesOf_symbols')
qed

lemma generateOpenAISchema_calls:
  "generateOpenAISchema S fuel d =
     bind (foldM (ensureDefOpenAI S fuel) \<lparr>doc = d, defs = [], stack = {}\<rparr> (map fst (types d)))
       (\<lambda>ctx.
          bind (mapM_st (emitOpenAI S fuel) ctx (map s_type (symbols d)))
            (\<lambda>(bs, c). Ret (rootSchema (assignAll wrapOpenAI (zip (map symbolEntry (symbols d)) bs) [])
                               (requiredKeys True (map symbolEntry (symbols d))) (defs c))))"
  unfolding generateOpenAISchema_steps
  using symbols_loop[of "symbolStepOpenAI (emitOpenAI S fuel)" "emitOpenAI S fuel" wrapOpenAI True _ "symbols d",
      OF symbolStepOpenAI_calls]
  by (simp add: rootSchema_def)

lemma generateGeminiSchema_calls:
  "generateGeminiSchema S fuel d =
     bind (foldM (ensureDefGemini S fuel) \<lparr>doc = d, defs = [], stack = {}\<rparr> (map fst (types d)))
       (\<lambda>ctx.
          bind (mapM_st (emitGemini S fuel) ctx (map s_type (symbols d)))
            (\<lambda>(bs, c). Ret (rootSchema (assignAll wrapGemini (zip (map symbolEntry (symbols d)) bs) [])
                               (requiredKeys False (map symbolEntry (symbols d))) (defs c))))"
  unfolding generateGeminiSchema_steps
  using symbols_loop[of "symbolStepGemini (emitGemini S fuel)" "emitGemini S fuel" wrapGemini False _ "symbols d",
      OF symbolStepGemini_calls]
  by (simp add: rootSchema_def)

subsection \<open>What the assignments leave in \<open>properties\<close>\<close>

lemma assignAll_snoc:
  "assignAll w (ebs @ [(e, b)]) ps = setProperty (fst e) (w e b) (assignAll w ebs ps)"
  by (simp add: assignAll_def)

lemma map_of_setProperty:
  "map_of (setProperty k v m) k' =
     (if k = ''__proto__'' then map_of m k' else if k' = k then Some v else map_of m k')"
  by (simp add: setProperty_def update_conv' del: AList.update.simps)

lemma assignAll_proto:
  "map_of (assignAll w ebs ps) ''__proto__'' = map_of ps ''__proto__''"
proof (induction ebs rule: rev_induct)
  case Nil
  show ?case by (simp add: assignAll_def)
next
  case (snoc eb ebs)
  obtain e b where eb: "eb = (e, b)" by (cases eb) auto
  show ?case unfolding eb assignAll_snoc map_of_setProperty using snoc by simp
qed

lemma assignAll_lookup:
  "map_of (assignAll w ebs ps) k =
     (if k = ''__proto__'' \<or> k \<notin> fst ` fst ` set ebs then map_of ps k
      else Some (case last (filter (\<lambda>(e, b). fst e = k) ebs) of (e, b) \<Rightarrow> w e b))"
proof (cases "k = ''__proto__''")
  case True
  then show ?thesis by (simp add: assignAll_proto)
next
  case np: False
  show ?thesis
proof (induction ebs rule: rev_induct)
  case Nil
  show ?case by (simp add: assignAll_def)
next
  case (snoc eb ebs)
  obtain e b where eb: "eb = (e, b)" by (cases eb) auto
  show ?case
  proof (cases "fst e = k")
    case True
    then show ?thesis unfolding eb assignAll_snoc map_of_setProperty
      using np by (auto simp: image_iff)
  next
    case False
    then have "filter (\<lambda>(e, b). fst e = k) (ebs @ [(e, b)]) = filter (\<lambda>(e, b). fst e = k) ebs"
      by simp
    moreover from False have "k \<notin> fst ` fst ` set (ebs @ [(e, b)]) \<longleftrightarrow> k \<notin> fst ` fst ` set ebs"
      by (auto simp: image_iff)
    ultimately show ?thesis unfolding eb assignAll_snoc map_of_setProperty
      using False np by (simp add: snoc)
  qed
qed
qed

lemma assignAll_keys:
  "fst ` set (assignAll w ebs ps) = fst ` set ps \<union> (fst ` fst ` set ebs - {''__proto__''})"
proof (induction ebs rule: rev_induct)
  case Nil
  show ?case by (simp add: assignAll_def)
next
  case (snoc eb ebs)
  obtain e b where eb: "eb = (e, b)" by (cases eb) auto
  show ?case unfolding eb assignAll_snoc keys_setProperty snoc by auto
qed

lemma assignAll_distinct:
  "distinct (map fst ps) \<Longrightarrow> distinct (map fst (assignAll w ebs ps))"
proof (induction ebs rule: rev_induct)
  case Nil
  then show ?case by (simp add: assignAll_def)
next
  case (snoc eb ebs)
  obtain e b where eb: "eb = (e, b)" by (cases eb) auto
  from snoc show ?case unfolding eb assignAll_snoc
    by (simp add: setProperty_def distinct_update del: AList.update.simps)
qed

lemma requiredKeys_all: "requiredKeys True es = map fst es"
  by (induction es) (auto simp: requiredKeys_def)

lemma requiredKeys_some:
  "key \<in> set (requiredKeys False es) \<longleftrightarrow> (\<exists>arr. (key, False, arr) \<in> set es)"
  by (force simp: requiredKeys_def)

subsection \<open>What the string-domain signatures leave in \<open>additionalProperties\<close>\<close>

fun settles :: "role \<Rightarrow> bool" where
  "settles Closure = True"
| "settles (MapValue arr) = True"
| "settles (Entry e) = False"
| "settles Probe = False"

lemma additionalFrom_unsettled:
  "list_all (\<lambda>rb. \<not> settles (fst rb)) rbs \<Longrightarrow> additionalFrom ap rbs = ap"
proof (induction rbs arbitrary: ap)
  case Nil
  show ?case by (simp add: additionalFrom_def)
next
  case (Cons rb rbs)
  obtain r b where rb: "rb = (r, b)" by (cases rb) auto
  from Cons.prems have "\<not> settles r" and rest: "list_all (\<lambda>rb. \<not> settles (fst rb)) rbs"
    by (simp_all add: rb)
  then have "applyAdditional ap (r, b) = ap" by (cases r) simp_all
  with Cons.IH[OF rest, of ap] show ?case by (simp add: additionalFrom_def rb)
qed

lemma additionalFrom_append:
  "additionalFrom ap (xs @ ys) = additionalFrom (additionalFrom ap xs) ys"
  by (simp add: additionalFrom_def)

lemma additionalFrom_map:
  "list_all (\<lambda>rb. \<not> settles (fst rb)) rbs \<Longrightarrow>
   additionalFrom ap (pre @ (MapValue arr, b) # rbs) = (if arr then arrayOf b else b)"
  using additionalFrom_unsettled[of rbs "if arr then arrayOf b else b"]
  by (simp add: additionalFrom_def)

lemma additionalFrom_closure:
  "list_all (\<lambda>rb. \<not> settles (fst rb)) rbs \<Longrightarrow>
   additionalFrom ap (pre @ (Closure, b) # rbs) = JBool False"
  using additionalFrom_unsettled[of rbs "JBool False"]
  by (simp add: additionalFrom_def)

lemma unsettled_zip:
  "list_all (\<lambda>c. \<not> settles (snd c)) cs \<Longrightarrow> list_all (\<lambda>rb. \<not> settles (fst rb)) (zip (map snd cs) bs)"
proof (induction cs arbitrary: bs)
  case Nil
  show ?case by simp
next
  case (Cons c cs)
  then show ?case by (cases bs) simp_all
qed

lemma unsettled_keyCalls: "list_all (\<lambda>c. \<not> settles (snd c)) (keyCalls S idx)"
  by (simp add: keyCalls_def list_all_iff)

lemma unsettled_enum_sigs:
  "list_all (\<lambda>i. i_kind i = KEnum) sigs \<Longrightarrow>
   list_all (\<lambda>c. \<not> settles (snd c)) (concat (map (sigCallsGemini S) sigs))"
proof (induction sigs)
  case Nil
  show ?case by simp
next
  case (Cons idx sigs)
  then show ?case using unsettled_keyCalls[of S idx] by (simp add: sigCallsGemini_def)
qed

lemma unsettled_props: "list_all (\<lambda>c. \<not> settles (snd c)) (map propCall ps)"
  by (simp add: propCall_def list_all_iff)

subsection \<open>Objects with a string-domain signature\<close>

definition mapCallsBefore :: "(number \<Rightarrow> string) \<Rightarrow> IndexSigNode list \<Rightarrow> IndexSigNode \<Rightarrow> (TypeNode \<times> role) list" where
  "mapCallsBefore S pre idx =
     concat (map (sigCallsGemini S) pre) @ (if i_optional idx then [(i_valueType idx, Probe)] else [])"

definition mapCallsAfter :: "(number \<Rightarrow> string) \<Rightarrow> IndexSigNode list \<Rightarrow> ObjectNode \<Rightarrow> (TypeNode \<times> role) list" where
  "mapCallsAfter S post obj = concat (map (sigCallsGemini S) post) @ map propCall (o_props obj)"

lemma mapM_st_three:
  assumes "mapM_st e c xs = Ret (bs1, c1)" "e c1 y = Ret (b, c2)" "mapM_st e c2 zs = Ret (bs3, c3)"
  shows "mapM_st e c (xs @ y # zs) = Ret (bs1 @ b # bs3, c3)"
  using assms by (simp add: mapM_st_append bind_simps)

lemma emitObjectGemini_map:
  assumes sigs: "o_indexSigs obj = pre @ idx # post"
    and k: "i_kind idx = KString" and v: "i_valueType idx \<noteq> Primitive PNever"
    and post: "list_all (\<lambda>i. i_kind i = KEnum) post"
    and b1: "mapM_st (emitGemini S n) ctx (map fst (mapCallsBefore S pre idx)) = Ret (bs1, c1)"
    and b2: "emitGemini S n c1 (i_valueType idx) = Ret (base, c2)"
    and b3: "mapM_st (emitGemini S n) c2 (map fst (mapCallsAfter S post obj)) = Ret (bs3, c3)"
  shows "emitObjectGemini S (Suc n) ctx obj =
     Ret (objectSchema
            (assignAll wrapGemini
               (entriesOf (zip (map snd (mapCallsBefore S pre idx)) bs1) @
                entriesOf (zip (map snd (mapCallsAfter S post obj)) bs3)) [])
            (requiredKeys False
               (map fst (entriesOf (zip (map snd (mapCallsBefore S pre idx)) bs1) @
                         entriesOf (zip (map snd (mapCallsAfter S post obj)) bs3))))
            (if i_isArray idx then arrayOf base else base), c3)"
proof -
  define A where "A = mapCallsBefore S pre idx"
  define B where "B = mapCallsAfter S post obj"
  have calls: "callsGemini S obj = A @ (i_valueType idx, MapValue (i_isArray idx)) # B"
    unfolding callsGemini_def sigs A_def B_def mapCallsBefore_def mapCallsAfter_def
    by (simp add: sigCallsGemini_def k v)
  have m: "mapM_st (emitGemini S n) ctx (map fst (callsGemini S obj)) = Ret (bs1 @ base # bs3, c3)"
    unfolding calls using mapM_st_three[OF b1[folded A_def] b2 b3[folded B_def]] by simp
  from b1 have len: "length bs1 = length A" unfolding A_def by (auto dest: mapM_st_length)
  have z: "zip (map snd (callsGemini S obj)) (bs1 @ base # bs3) =
             zip (map snd A) bs1 @ (MapValue (i_isArray idx), base) # zip (map snd B) bs3"
    unfolding calls using len by simp
  have u: "list_all (\<lambda>rb. \<not> settles (fst rb)) (zip (map snd B) bs3)"
    unfolding B_def mapCallsAfter_def
    by (rule unsettled_zip) (simp add: unsettled_enum_sigs[OF post] unsettled_props)
  show ?thesis unfolding emitObjectGemini_calls m
    by (simp add: bind_simps z schemaGemini_def entriesOf_append additionalFrom_map[OF u]
          A_def[symmetric] B_def[symmetric])
qed

lemma rejectedCalls_first:
  "list_all acceptedOpenAI pre \<Longrightarrow> \<not> acceptedOpenAI idx \<Longrightarrow>
   rejectedCalls S (pre @ idx # rest) =
     Some (map fst (concat (map (sigCallsOpenAI S) pre)) @ (if i_optional idx then [i_valueType idx] else []))"
  by (induction pre) simp_all

lemma first_rejected:
  assumes "idx \<in> set sigs" "\<not> acceptedOpenAI idx"
  shows "\<exists>pre idx' rest. sigs = pre @ idx' # rest \<and> list_all acceptedOpenAI pre \<and> \<not> acceptedOpenAI idx'"
proof -
  from assms have "\<exists>x\<in>set sigs. \<not> acceptedOpenAI x" by blast
  from split_list_first_prop[OF this] show ?thesis
    by (auto simp: list_all_iff)
qed

lemma map_not_accepted:
  "i_kind idx = KString \<Longrightarrow> i_valueType idx \<noteq> Primitive PNever \<Longrightarrow> \<not> acceptedOpenAI idx"
  by (simp add: acceptedOpenAI_def)

lemma emitObjectOpenAI_rejected:
  assumes "o_indexSigs obj = pre @ idx # rest" "list_all acceptedOpenAI pre" "\<not> acceptedOpenAI idx"
  shows "emitObjectOpenAI S (Suc n) ctx obj =
     bind (mapM_st (emitOpenAI S n) ctx
             (map fst (concat (map (sigCallsOpenAI S) pre)) @
              (if i_optional idx then [i_valueType idx] else [])))
       (\<lambda>r. Throw StringIndexSignaturesNotSupported)"
  unfolding emitObjectOpenAI_calls assms(1) rejectedCalls_first[OF assms(2,3)] by simp

section \<open>Object schemas of the Gemini output\<close>

definition geminiObjectOK :: "(string \<times> json) list \<Rightarrow> bool" where
  "geminiObjectOK kvs =
     (case (map_of kvs ''properties'', map_of kvs ''required'') of
        (Some (JObj ps), Some (JArr req)) \<Rightarrow>
          set req - {JStr ''__proto__''} \<subseteq> set (map (JStr \<circ> fst) ps)
      | _ \<Rightarrow> False)"

definition geminiInvariant :: "json \<Rightarrow> bool" where
  "geminiInvariant out = allObjects (\<lambda>kvs. isObjectSchema kvs \<longrightarrow> geminiObjectOK kvs) out"

definition loopInvGemini :: "EmitCtx \<times> (string \<times> json) list \<times> string list \<Rightarrow> bool" where
  "loopInvGemini = (\<lambda>(c, properties, required).
     ctxInv geminiObjectOK c \<and> list_all (schemaInv geminiObjectOK) (map snd properties) \<and>
     set required - {''__proto__''} \<subseteq> set (map fst properties))"

definition loopInvGemini4 :: "EmitCtx \<times> (string \<times> json) list \<times> string list \<times> json \<Rightarrow> bool" where
  "loopInvGemini4 = (\<lambda>(c, properties, required, additionalProps).
     loopInvGemini (c, properties, required) \<and>
     allObjects (\<lambda>kvs. isObjectSchema kvs \<longrightarrow> geminiObjectOK kvs) additionalProps)"

lemma tolerant_gemini: "tolerant geminiObjectOK"
  by (simp add: tolerant_def geminiObjectOK_def update_conv')

lemma schemaInv_allObjects: "schemaInv Q s \<Longrightarrow> allObjects (\<lambda>kvs. isObjectSchema kvs \<longrightarrow> Q kvs) s"
  by (simp add: schemaInv_def)

lemma schemaInv_object_gemini:
  assumes "list_all (schemaInv geminiObjectOK) (map snd properties)"
    and "set required - {''__proto__''} \<subseteq> set (map fst properties)"
    and "allObjects (\<lambda>kvs. isObjectSchema kvs \<longrightarrow> geminiObjectOK kvs) additional"
  shows "schemaInv geminiObjectOK (objectSchema properties required additional)"
proof -
  have "geminiObjectOK [(''type'', JStr ''object''), (''properties'', JObj properties),
                  (''required'', JArr (map JStr required)), (''additionalProperties'', additional)]"
    using assms(2) by (auto simp: geminiObjectOK_def)
  with allObjects_properties[OF assms(1)] allObjects_strings[of _ required] assms(3) show ?thesis
    unfolding schemaInv_def objectSchema_def
    by (simp del: allObjects.simps(1) add: allObjects.simps(1)[of _ "[_, _, _, _]"])
qed

lemma schemaInv_placeholderGemini: "schemaInv geminiObjectOK placeholderGemini"
  unfolding placeholderGemini_def
  using schemaInv_object_gemini[of "[]" "[]" "JBool True"] by (simp add: objectSchema_def)

lemma step_gemini:
  assumes "emitOK geminiObjectOK e" "loopInvGemini (c, properties, required)"
    and "e c node = Ret (base, c')"
  shows "loopInvGemini
           (c', setProperty k (if arr then arrayOf base else base) properties,
            (if \<not> opt then required @ [k] else required))"
proof -
  from assms have b: "schemaInv geminiObjectOK base" and c: "ctxInv geminiObjectOK c'"
    unfolding emitOK_def loopInvGemini_def by blast+
  then have "schemaInv geminiObjectOK (if arr then arrayOf base else base)"
    by (simp add: schemaInv_arrayOf)
  with assms(2) c show ?thesis
    unfolding loopInvGemini_def
    by (auto simp: list_all_setProperty_values keys_setProperty)
qed

lemma propStepGemini_inv:
  assumes "emitOK geminiObjectOK e" "loopInvGemini st" "propStepGemini e st p = Ret st1"
  shows "loopInvGemini st1"
proof -
  obtain c ps rq where st: "st = (c, ps, rq)" by (cases st) auto
  from assms(3) obtain base c' where e: "e c (p_type p) = Ret (base, c')" and
    "st1 = (c', setProperty (p_name p) (if p_isArray p then arrayOf base else base) ps,
            (if \<not> p_optional p then rq @ [p_name p] else rq))"
    unfolding propStepGemini_def st
    by (auto simp: bind_Ret_iff Let_def)
  then show ?thesis using step_gemini[OF assms(1) assms(2)[unfolded st] e] by simp
qed

lemma symbolStepGemini_inv:
  assumes "emitOK geminiObjectOK e" "loopInvGemini st" "symbolStepGemini e st sd = Ret st1"
  shows "loopInvGemini st1"
proof -
  obtain c ps rq where st: "st = (c, ps, rq)" by (cases st) auto
  from assms(3) obtain base c' where e: "e c (s_type sd) = Ret (base, c')" and
    "st1 = (c', setProperty (s_name sd) (if s_isArray sd then arrayOf base else base) ps,
            (if \<not> s_optional sd then rq @ [s_name sd] else rq))"
    unfolding symbolStepGemini_def st
    by (auto simp: bind_Ret_iff Let_def)
  then show ?thesis using step_gemini[OF assms(1) assms(2)[unfolded st] e] by simp
qed

lemma keyStepGemini_inv:
  assumes "emitOK geminiObjectOK e" "loopInvGemini4 st" "keyStepGemini e S idx st key = Ret st1"
  shows "loopInvGemini4 st1"
proof -
  obtain c ps rq ap where st: "st = (c, ps, rq, ap)" by (cases st) auto
  from assms(3) obtain base c' where e: "e c (i_valueType idx) = Ret (base, c')" and
    "st1 = (c', setProperty (literalString S key) (if i_isArray idx then arrayOf base else base) ps,
            (if \<not> i_optional idx then rq @ [literalString S key] else rq), ap)"
    unfolding keyStepGemini_def st
    by (auto simp: bind_Ret_iff Let_def)
  then show ?thesis
    using step_gemini[OF assms(1) _ e, of ps rq "literalString S key" "i_isArray idx" "i_optional idx"]
      assms(2)
    by (simp add: loopInvGemini4_def st)
qed

lemma sigStepGemini_inv:
  assumes E: "emitOK geminiObjectOK e" and I: "loopInvGemini4 st" and r: "sigStepGemini e S st idx = Ret st1"
  shows "loopInvGemini4 st1"
proof -
  obtain c ps rq ap where st: "st = (c, ps, rq, ap)" by (cases st) auto
  from I have c: "ctxInv geminiObjectOK c" and L: "loopInvGemini (c, ps, rq)"
    by (simp_all add: st loopInvGemini4_def loopInvGemini_def)
  show ?thesis
  proof (cases "i_kind idx = KString")
    case False
    with r have "foldM (keyStepGemini e S idx) st (case i_keys idx of None \<Rightarrow> [] | Some ks \<Rightarrow> ks) = Ret st1"
      unfolding sigStepGemini_def st by simp
    then show ?thesis using I
      by (rule foldM_invariant) (rule keyStepGemini_inv[OF E])
  next
    case True
    have wrap: "allObjects (\<lambda>kvs. isObjectSchema kvs \<longrightarrow> geminiObjectOK kvs)
                  (if i_isArray idx then arrayOf base else base)"
      if "schemaInv geminiObjectOK base" for base
      using that schemaInv_arrayOf[of geminiObjectOK base] by (auto dest: schemaInv_allObjects)
    have keep: "loopInvGemini (c', ps, rq)" if "ctxInv geminiObjectOK c'" for c'
      using L that by (simp add: loopInvGemini_def)
    show ?thesis
    proof (cases "i_optional idx")
      case False
      with True r obtain base c' where e: "e c (i_valueType idx) = Ret (base, c')"
        and st1: "st1 = (c', ps, rq, if i_isArray idx then arrayOf base else base)"
        unfolding sigStepGemini_def st by (auto simp: bind_Ret_iff Let_def)
      from emitOK_D[OF E c e] show ?thesis unfolding st1 loopInvGemini4_def
        using wrap keep by simp
    next
      case opt: True
      with True r obtain s c1 where e1: "e c (i_valueType idx) = Ret (s, c1)"
        and r2: "(if isNeverSchema s then Ret (c1, ps, rq, JBool False)
                  else bind (e c1 (i_valueType idx)) (\<lambda>(base, c'').
                        let valSchema = (if i_isArray idx then arrayOf base else base) in
                        Ret (c'', ps, rq, valSchema))) = Ret st1"
        unfolding sigStepGemini_def st by (auto simp: bind_Ret_iff)
      from emitOK_D[OF E c e1] have c1: "ctxInv geminiObjectOK c1" by simp
      show ?thesis
      proof (cases "isNeverSchema s")
        case True
        with r2 have "st1 = (c1, ps, rq, JBool False)" by simp
        then show ?thesis unfolding loopInvGemini4_def using keep[OF c1] by simp
      next
        case False
        with r2 obtain base c2 where e2: "e c1 (i_valueType idx) = Ret (base, c2)"
          and st1: "st1 = (c2, ps, rq, if i_isArray idx then arrayOf base else base)"
          by (auto simp: bind_Ret_iff Let_def)
        from emitOK_D[OF E c1 e2] show ?thesis unfolding st1 loopInvGemini4_def
          using wrap keep by simp
      qed
    qed
  qed
qed

lemma emitObjectGemini_inv:
  assumes E: "emitOK geminiObjectOK (emitGemini S n)" and c: "ctxInv geminiObjectOK ctx"
    and r: "emitObjectGemini S (Suc n) ctx obj = Ret (s, ctx')"
  shows "schemaInv geminiObjectOK s \<and> ctxInv geminiObjectOK ctx'"
proof -
  from r obtain c1 ps1 rq1 ap c2 ps2 rq2 where
    f1: "foldM (sigStepGemini (emitGemini S n) S) (ctx, [], [], JBool (\<not> o_closed obj)) (o_indexSigs obj)
           = Ret (c1, ps1, rq1, ap)"
    and f2: "foldM (propStepGemini (emitGemini S n)) (c1, ps1, rq1) (o_props obj) = Ret (c2, ps2, rq2)"
    and s: "s = objectSchema ps2 rq2 ap" "ctx' = c2"
    unfolding emitObjectGemini_Suc by (auto simp: bind_Ret_iff)
  have "loopInvGemini4 (ctx, [], [], JBool (\<not> o_closed obj))"
    using c by (simp add: loopInvGemini4_def loopInvGemini_def)
  with f1 have 1: "loopInvGemini4 (c1, ps1, rq1, ap)"
    by (rule foldM_invariant) (rule sigStepGemini_inv[OF E])
  then have "loopInvGemini (c1, ps1, rq1)" by (simp add: loopInvGemini4_def)
  with f2 have "loopInvGemini (c2, ps2, rq2)"
    by (rule foldM_invariant) (rule propStepGemini_inv[OF E])
  with 1 show ?thesis unfolding s
    by (simp add: loopInvGemini4_def loopInvGemini_def schemaInv_object_gemini)
qed

lemma ensureDefGemini_cases:
  assumes "ensureDefGemini S (Suc n) ctx name = Ret ctx'"
  obtains (known) "name \<in> set (map fst (defs ctx))" "ctx' = ctx"
  | (recursive) "name \<notin> set (map fst (defs ctx))" "name \<in> stack ctx"
      "ctx' = ctx\<lparr>defs := AList.update name placeholderGemini (defs ctx)\<rparr>"
  | (fresh) d schema c1 where "name \<notin> set (map fst (defs ctx))" "name \<notin> stack ctx"
      "map_of (types (doc ctx)) name = Some d"
      "emitGemini S n (ctx\<lparr>stack := insert name (stack ctx)\<rparr>) (td_node d) = Ret (schema, c1)"
      "ctx' = c1\<lparr>stack := stack c1 - {name}, defs := AList.update name schema (defs c1)\<rparr>"
proof (cases "name \<in> set (map fst (defs ctx))")
  case True
  with assms have "ctx' = ctx" by simp
  with True show ?thesis by (rule known)
next
  case nd: False
  show ?thesis
  proof (cases "name \<in> stack ctx")
    case True
    with nd assms have "ctx' = ctx\<lparr>defs := AList.update name placeholderGemini (defs ctx)\<rparr>"
      by simp
    with nd True show ?thesis by (rule recursive)
  next
    case ns: False
    show ?thesis
    proof (cases "map_of (types (doc ctx)) name")
      case None
      with nd ns assms have False by simp
      then show ?thesis ..
    next
      case (Some d)
      with nd ns assms have
        "bind (emitGemini S n (ctx\<lparr>stack := insert name (stack ctx)\<rparr>) (td_node d))
           (\<lambda>(schema, c1). Ret (c1\<lparr>stack := stack c1 - {name},
                                     defs := AList.update name schema (defs c1)\<rparr>)) = Ret ctx'"
        by simp
      then obtain schema c1 where
        "emitGemini S n (ctx\<lparr>stack := insert name (stack ctx)\<rparr>) (td_node d) = Ret (schema, c1)"
        "Ret (c1\<lparr>stack := stack c1 - {name}, defs := AList.update name schema (defs c1)\<rparr>) = Ret ctx'"
        by (rule bind_pair_RetE)
      then have "emitGemini S n (ctx\<lparr>stack := insert name (stack ctx)\<rparr>) (td_node d) = Ret (schema, c1)"
        "ctx' = c1\<lparr>stack := stack c1 - {name}, defs := AList.update name schema (defs c1)\<rparr>"
        by simp_all
      with nd ns Some show ?thesis by (rule fresh)
    qed
  qed
qed

lemma ensureDefGemini_inv:
  assumes "emitOK geminiObjectOK (emitGemini S n)" "ctxInv geminiObjectOK ctx"
    and "ensureDefGemini S (Suc n) ctx name = Ret ctx'"
  shows "ctxInv geminiObjectOK ctx'"
  using assms(3)
proof (cases rule: ensureDefGemini_cases)
  case known
  with assms show ?thesis by simp
next
  case recursive
  then show ?thesis using ctxInv_defs_update[OF assms(2) schemaInv_placeholderGemini] by simp
next
  case (fresh d schema c1)
  from emitOK_D[OF assms(1) _ fresh(4)] assms(2)
  have "schemaInv geminiObjectOK schema" "ctxInv geminiObjectOK c1"
    by simp_all
  then show ?thesis unfolding fresh(5)
    using ctxInv_defs_update[of geminiObjectOK "c1\<lparr>stack := stack c1 - {name}\<rparr>" schema name]
    by simp
qed

lemma emitGemini_inv:
  assumes E: "emitOK Q (emitGemini S n)" and D: "ensureOK Q (ensureDefGemini S n)"
    and O: "emitObjectOK Q (emitObjectGemini S n)"
    and c: "ctxInv Q ctx" and r: "emitGemini S (Suc n) ctx node = Ret (s, ctx')"
  shows "schemaInv Q s \<and> ctxInv Q ctx'"
proof (cases node)
  case (Primitive p)
  with r c show ?thesis by (auto simp: schemaInv_primitive)
next
  case (StringLiteral v)
  with r c show ?thesis by (auto simp: schemaInv_def isObjectSchema_def)
next
  case (NumberLiteral v)
  with r c show ?thesis by (auto simp: schemaInv_def isObjectSchema_def)
next
  case (BooleanLiteral v)
  with r c show ?thesis by (auto simp: schemaInv_def isObjectSchema_def)
next
  case (TypeRef name)
  with r obtain c1 where "ensureDefGemini S n ctx name = Ret c1" "ctx' = c1"
    "s = JObj [(''$ref'', JStr (''#/$defs/'' @ name))]"
    by (auto simp: bind_Ret_iff)
  with D c show ?thesis unfolding ensureOK_def
    by (auto simp: schemaInv_def isObjectSchema_def)
next
  case (UnionT members)
  show ?thesis
  proof (cases "list_all isScalarLiteral members")
    case True
    with r UnionT obtain enums where
      "s = JObj (case unionLiteralType enums of
                        Some t \<Rightarrow> AList.update ''type'' (JStr t) [(''enum'', JArr (map literalJson enums))]
                      | None \<Rightarrow> [(''enum'', JArr (map literalJson enums))])" "ctx' = ctx"
      by (auto simp: bind_Ret_iff Let_def simp del: AList.update.simps)
    with c show ?thesis by (simp only: schemaInv_literal_union simp_thms)
  next
    case False
    with r UnionT obtain schemas where
      m: "mapM_st (emitGemini S n) ctx members = Ret (schemas, ctx')"
      and s: "s = JObj [(''anyOf'', JArr schemas)]"
      by (auto simp: bind_Ret_iff)
    have "ctxInv Q ctx' \<and> list_all (schemaInv Q) schemas"
      using m c by (rule mapM_st_invariant) (use E in \<open>auto dest: emitOK_D\<close>)
    then show ?thesis unfolding s
      by (auto simp: schemaInv_def isObjectSchema_def list_all_iff)
  qed
next
  case (Intersection members)
  with r obtain obj where "emitObjectGemini S n ctx obj = Ret (s, ctx')"
    by (auto simp: bind_Ret_iff)
  with O c show ?thesis unfolding emitObjectOK_def by blast
next
  case (Object ps sigs cl)
  with r O c show ?thesis unfolding emitObjectOK_def by simp
qed

lemma gemini_inv_all:
  "emitOK geminiObjectOK (emitGemini S n) \<and> ensureOK geminiObjectOK (ensureDefGemini S n)
   \<and> emitObjectOK geminiObjectOK (emitObjectGemini S n)"
proof (induction n)
  case 0
  show ?case by (simp add: emitOK_def ensureOK_def emitObjectOK_def)
next
  case (Suc n)
  then have E: "emitOK geminiObjectOK (emitGemini S n)"
    and D: "ensureOK geminiObjectOK (ensureDefGemini S n)"
    and O: "emitObjectOK geminiObjectOK (emitObjectGemini S n)" by blast+
  have "emitOK geminiObjectOK (emitGemini S (Suc n))"
    unfolding emitOK_def using emitGemini_inv[OF E D O] by blast
  moreover have "ensureOK geminiObjectOK (ensureDefGemini S (Suc n))"
    unfolding ensureOK_def using ensureDefGemini_inv[OF E] by blast
  moreover have "emitObjectOK geminiObjectOK (emitObjectGemini S (Suc n))"
    unfolding emitObjectOK_def using emitObjectGemini_inv[OF E] by blast
  ultimately show ?case by blast
qed

lemma gemini_required_subset_tree:
  assumes "generateGeminiSchema S fuel d = Ret out"
  shows "geminiInvariant out"
proof -
  let ?Q = geminiObjectOK
  from assms obtain ctx c properties required where
    f1: "foldM (ensureDefGemini S fuel) \<lparr>doc = d, defs = [], stack = {}\<rparr> (map fst (types d)) = Ret ctx"
    and f2: "foldM (symbolStepGemini (emitGemini S fuel)) (ctx, [], []) (symbols d) = Ret (c, properties, required)"
    and out: "out = JObj [(''type'', JStr ''object''),
                          (''properties'', JObj properties),
                          (''required'', JArr (map JStr required)),
                          (''additionalProperties'', JBool False),
                          (''$defs'', JObj (defs c))]"
    unfolding generateGeminiSchema_steps by (auto simp: bind_Ret_iff)
  note all = gemini_inv_all[of S fuel]
  then have E: "emitOK ?Q (emitGemini S fuel)" by blast
  have "ctxInv ?Q \<lparr>doc = d, defs = [], stack = {}\<rparr>" by (simp add: ctxInv_def)
  with f1 have 1: "ctxInv ?Q ctx"
    by (rule foldM_invariant) (use all in \<open>auto simp: ensureOK_def\<close>)
  then have "loopInvGemini (ctx, [], [])" by (simp add: loopInvGemini_def)
  with f2 have 2: "loopInvGemini (c, properties, required)"
    by (rule foldM_invariant) (rule symbolStepGemini_inv[OF E])
  then have "schemaInv ?Q (objectSchema properties required (JBool False))"
    by (simp add: loopInvGemini_def schemaInv_object_gemini)
  moreover have "allObjects (\<lambda>kvs. isObjectSchema kvs \<longrightarrow> ?Q kvs) (JObj (defs c))"
    using 2 by (intro allObjects_properties) (simp add: loopInvGemini_def ctxInv_def)
  ultimately show ?thesis unfolding out geminiInvariant_def schemaInv_def objectSchema_def
    by (simp add: geminiObjectOK_def isObjectSchema_def)
qed

section \<open>String-domain index signatures\<close>

definition scoresObj :: ObjectNode where
  "scoresObj = \<lparr>o_props = [],
                 o_indexSigs = [IndexSigNode KString None (Primitive PNumber) False False],
                 o_closed = False\<rparr>"

definition twoMapsObj :: ObjectNode where
  "twoMapsObj = \<lparr>o_props = [],
                  o_indexSigs = [IndexSigNode KString None (Primitive PNumber) False False,
                                 IndexSigNode KString None (Primitive PString) True True],
                  o_closed = False\<rparr>"

definition enumThenMapObj :: ObjectNode where
  "enumThenMapObj =
     \<lparr>o_props = [PropNode ''note'' (Primitive PString) True False],
      o_indexSigs = [IndexSigNode KEnum (Some [LString ''a'', LString ''b'']) (Primitive PNumber) False False,
                     IndexSigNode KString None (Primitive PBoolean) False False],
      o_closed = False\<rparr>"



section \<open>Optional members\<close>

lemma makeNullable_string:
  "map_of kvs ''type'' = Some (JStr t) \<Longrightarrow>
   makeNullable (JObj kvs) = JObj (AList.update ''type'' (JArr [JStr t, JStr ''null'']) kvs)"
  by (simp add: makeNullable_def)

lemma makeNullable_array:
  "map_of kvs ''type'' = Some (JArr ts) \<Longrightarrow>
   makeNullable (JObj kvs) =
     (if JStr ''null'' \<in> set ts then JObj kvs
      else JObj (AList.update ''type'' (JArr (ts @ [JStr ''null''])) kvs))"
  by (simp add: makeNullable_def)

lemma makeNullable_idem:
  assumes "map_of kvs ''type'' = Some (JArr ts)"
  shows "makeNullable (makeNullable (JObj kvs)) = makeNullable (JObj kvs)"
proof (cases "JStr ''null'' \<in> set ts")
  case True
  with assms show ?thesis by (simp add: makeNullable_array)
next
  case False
  have "map_of (AList.update ''type'' (JArr (ts @ [JStr ''null''])) kvs) ''type''
          = Some (JArr (ts @ [JStr ''null'']))"
    by (simp add: update_conv')
  from makeNullable_array[OF this] False assms show ?thesis
    by (simp add: makeNullable_array)
qed

lemma makeNullable_untyped:
  "field schema ''type'' = None \<Longrightarrow>
   makeNullable schema = JObj [(''anyOf'', JArr [schema, JObj [(''type'', JStr ''null'')]])]"
  by (simp add: makeNullable_def)

lemma makeNullable_arrayOf:
  "makeNullable (arrayOf items) =
     JObj [(''type'', JArr [JStr ''array'', JStr ''null'']), (''items'', items)]"
  by (simp add: makeNullable_def arrayOf_def)

definition pairObj :: ObjectNode where
  "pairObj = \<lparr>o_props = [PropNode ''note'' (Primitive PString) True False],
               o_indexSigs = [IndexSigNode KEnum (Some [LString ''a'', LString ''b'']) (Primitive PNumber) False False],
               o_closed = False\<rparr>"

definition pairSchemaOpenAI :: json where
  "pairSchemaOpenAI =
     objectSchema
       [(''a'', JObj [(''type'', JStr ''number'')]),
        (''b'', JObj [(''type'', JStr ''number'')]),
        (''note'', JObj [(''type'', JArr [JStr ''string'', JStr ''null''])])]
       [''a'', ''b'', ''note''] (JBool False)"

definition pairSchemaGemini :: json where
  "pairSchemaGemini =
     objectSchema
       [(''a'', JObj [(''type'', JStr ''number'')]),
        (''b'', JObj [(''type'', JStr ''number'')]),
        (''note'', JObj [(''type'', JStr ''string'')])]
       [''a'', ''b''] (JBool True)"

lemma emit_pairObj:
  "emitObjectOpenAI integerString (Suc (Suc 0)) emptyCtx pairObj = Ret (pairSchemaOpenAI, emptyCtx)"
  "emitObjectGemini integerString (Suc (Suc 0)) emptyCtx pairObj = Ret (pairSchemaGemini, emptyCtx)"
  by (simp_all add: pairObj_def pairSchemaOpenAI_def pairSchemaGemini_def emptyCtx_def
      objectSchema_def bind_simps makeNullable_def Let_def setProperty_def)

definition treeSchemaGemini :: json where
  "treeSchemaGemini =
     JObj
       [(''type'', JStr ''object''),
        (''properties'',
         JObj
          [(''root'', JObj [(''$ref'', JStr ''#/$defs/Tree'')]),
           (''tags'',
            JObj
             [(''type'', JStr ''array''),
              (''items'',
               JObj [(''enum'', JArr [JStr ''a'', JStr ''b'']), (''type'', JStr ''string'')])])]),
        (''required'', JArr [JStr ''root'']),
        (''additionalProperties'', JBool False),
        (''$defs'',
         JObj
          [(''Tree'',
            JObj
             [(''type'', JStr ''object''),
              (''properties'',
               JObj
                [(''value'', JObj [(''type'', JStr ''number'')]),
                 (''children'',
                  JObj
                   [(''type'', JStr ''array''),
                    (''items'', JObj [(''$ref'', JStr ''#/$defs/Tree'')])])]),
              (''required'', JArr [JStr ''value'', JStr ''children'']),
              (''additionalProperties'', JBool True)])])]"

lemma generateGeminiSchema_treeDoc:
  "generateGeminiSchema integerString 6 treeDoc = Ret treeSchemaGemini"
  by (simp add: eval_nat_numeral generateGeminiSchema_def treeDoc_def treeSchemaGemini_def
      bind_simps placeholderGemini_def arrayOf_def unionLiteralType_def Let_def setProperty_def)

text \<open>
  The document with the symbols \<open>x?: number\<close> and \<open>x: string\<close>, in this order: the two
  labels are different keys of the YAML mapping and give two symbols of the name \<open>x\<close>.
\<close>

definition dupDoc :: TDLDoc where
  "dupDoc =
     \<lparr>types = [],
      symbols = [\<lparr>s_name = ''x'', s_type = Primitive PNumber, s_optional = True, s_isArray = False\<rparr>,
                 \<lparr>s_name = ''x'', s_type = Primitive PString, s_optional = False, s_isArray = False\<rparr>],
      meta = []\<rparr>"




definition collideObj :: ObjectNode where
  "collideObj = \<lparr>o_props = [PropNode ''a'' (Primitive PString) True False],
               o_indexSigs = [IndexSigNode KEnum (Some [LString ''a'']) (Primitive PNumber) False False],
               o_closed = False\<rparr>"




section \<open>The key \<^verbatim>\<open>__proto__\<close>\<close>

text \<open>
  The document with the one symbol \<open>cfg: {[k: '__proto__']: number}\<close>.
\<close>

definition protoDoc :: TDLDoc where
  "protoDoc =
     \<lparr>types = [],
      symbols = [\<lparr>s_name = ''cfg'',
                  s_type = Object [] [IndexSigNode KEnum (Some [LString ''__proto__''])
                                        (Primitive PNumber) False False] False,
                  s_optional = False, s_isArray = False\<rparr>],
      meta = []\<rparr>"

text \<open>
  C1 (the code departs from the claim). The enum key \<^verbatim>\<open>__proto__\<close> is pushed to
  \<open>required\<close>, but the assignment \<^verbatim>\<open>properties[keyName] = ...\<close> sets the prototype of
  \<^verbatim>\<open>properties\<close> and adds no property. For the document above the OpenAI generator
  returns, for every printing function and all fuel from three on, an object schema for
  \<open>cfg\<close> whose \<open>required\<close> is \<open>["__proto__"]\<close> and whose \<open>properties\<close> are empty.
  (\<open>additionalProperties\<close> is \<open>false\<close> in every object schema of every output, and
  \<open>required\<close> lists the keys of \<open>properties\<close> and, possibly, \<^verbatim>\<open>__proto__\<close>: lemma
  \<open>openai_object_schemas\<close>.)
\<close>

theorem proto_key_required_without_property:
  "generateOpenAISchema S (Suc (Suc (Suc n))) protoDoc =
     Ret (rootSchema
            [(''cfg'', objectSchema [] [''__proto__''] (JBool False))] [''cfg''] [])"
  by (simp add: generateOpenAISchema_def protoDoc_def rootSchema_def objectSchema_def
      bind_simps setProperty_def)

section \<open>The definition table\<close>

text \<open>
  \<open>defsInv d K c\<close>: the context \<open>c\<close> belongs to the document \<open>d\<close>; the keys of its
  definition table are pairwise distinct and are names of types of \<open>d\<close>, as are the
  names on its stack; and the table has the keys \<open>K\<close>.
\<close>

definition defsInv :: "TDLDoc \<Rightarrow> string set \<Rightarrow> EmitCtx \<Rightarrow> bool" where
  "defsInv d K c =
     (doc c = d \<and> distinct (map fst (defs c)) \<and> fst ` set (defs c) \<subseteq> fst ` set (types d) \<and>
      stack c \<subseteq> fst ` set (types d) \<and> K \<subseteq> fst ` set (defs c))"

definition emitKeeps :: "(EmitCtx \<Rightarrow> TypeNode \<Rightarrow> (json \<times> EmitCtx) res) \<Rightarrow> bool" where
  "emitKeeps e = (\<forall>d K c node s c'. defsInv d K c \<longrightarrow> e c node = Ret (s, c') \<longrightarrow> defsInv d K c')"

definition ensureAdds :: "(EmitCtx \<Rightarrow> string \<Rightarrow> EmitCtx res) \<Rightarrow> bool" where
  "ensureAdds e = (\<forall>d K c name c'. defsInv d K c \<longrightarrow> e c name = Ret c' \<longrightarrow> defsInv d (insert name K) c')"

definition emitObjectKeeps :: "(EmitCtx \<Rightarrow> ObjectNode \<Rightarrow> (json \<times> EmitCtx) res) \<Rightarrow> bool" where
  "emitObjectKeeps e = (\<forall>d K c obj s c'. defsInv d K c \<longrightarrow> e c obj = Ret (s, c') \<longrightarrow> defsInv d K c')"

lemma defsInv_mono: "defsInv d K c \<Longrightarrow> K' \<subseteq> K \<Longrightarrow> defsInv d K' c"
  unfolding defsInv_def by blast

lemma defsInv_known: "defsInv d K c \<Longrightarrow> name \<in> fst ` set (defs c) \<Longrightarrow> defsInv d (insert name K) c"
  unfolding defsInv_def by blast

lemma defsInv_stack:
  "defsInv d K c \<Longrightarrow> X \<subseteq> fst ` set (types d) \<Longrightarrow> defsInv d K (c\<lparr>stack := X\<rparr>)"
  unfolding defsInv_def by simp

lemma defsInv_update:
  assumes "defsInv d K c" "name \<in> fst ` set (types d)"
  shows "defsInv d (insert name K) (c\<lparr>defs := AList.update name s (defs c)\<rparr>)"
  using assms unfolding defsInv_def
  by (auto simp: distinct_update keys_update simp del: AList.update.simps)

lemma emitKeeps_D:
  "emitKeeps e \<Longrightarrow> defsInv d K c \<Longrightarrow> e c node = Ret (s, c') \<Longrightarrow> defsInv d K c'"
  unfolding emitKeeps_def by blast

lemma mapM_st_keeps:
  assumes "emitKeeps e" "mapM_st e c nodes = Ret (bs, c')" "defsInv d K c"
  shows "defsInv d K c'"
proof -
  have "defsInv d K c' \<and> list_all (\<lambda>b. True) bs"
    using assms(2,3) by (rule mapM_st_invariant) (use assms(1) in \<open>auto dest: emitKeeps_D\<close>)
  then show ?thesis by simp
qed

lemma foldM_prefix_invariant:
  assumes "foldM f s xs = Ret s'" "I pre s"
    and "\<And>pre x s s1. I pre s \<Longrightarrow> f s x = Ret s1 \<Longrightarrow> I (pre @ [x]) s1"
  shows "I (pre @ xs) s'"
  using assms(1,2)
proof (induction xs arbitrary: s pre)
  case Nil
  then show ?case by simp
next
  case (Cons x xs)
  from Cons.prems(1) obtain s1 where 1: "f s x = Ret s1" and 2: "foldM f s1 xs = Ret s'"
    by (auto simp: bind_Ret_iff)
  from assms(3)[OF Cons.prems(2) 1] have "I (pre @ [x]) s1" .
  from Cons.IH[OF 2 this] show ?case by simp
qed

subsection \<open>The OpenAI emitter\<close>

lemma ensureDefOpenAI_adds:
  assumes E: "emitKeeps (emitOpenAI S n)" and I: "defsInv d K ctx"
    and r: "ensureDefOpenAI S (Suc n) ctx name = Ret ctx'"
  shows "defsInv d (insert name K) ctx'"
  using r
proof (cases rule: ensureDefOpenAI_cases)
  case known
  with I show ?thesis by (simp add: defsInv_known)
next
  case recursive
  from I recursive(2) have "name \<in> fst ` set (types d)" unfolding defsInv_def by blast
  from defsInv_update[OF I this] recursive(3) show ?thesis by simp
next
  case (fresh td schema c1)
  from I have dd: "doc ctx = d" unfolding defsInv_def by simp
  from fresh(3) dd have nm: "name \<in> fst ` set (types d)"
    by (force dest: map_of_SomeD)
  from I nm have "defsInv d K (ctx\<lparr>stack := insert name (stack ctx)\<rparr>)"
    by (intro defsInv_stack) (auto simp: defsInv_def)
  from emitKeeps_D[OF E this fresh(4)] have 1: "defsInv d K c1" .
  then have "defsInv d K (c1\<lparr>stack := stack c1 - {name}\<rparr>)"
    by (intro defsInv_stack) (auto simp: defsInv_def)
  from defsInv_update[OF this nm, of schema] show ?thesis unfolding fresh(5) by simp
qed

lemma emitObjectOpenAI_keeps:
  assumes E: "emitKeeps (emitOpenAI S n)" and I: "defsInv d K ctx"
    and r: "emitObjectOpenAI S (Suc n) ctx obj = Ret (s, ctx')"
  shows "defsInv d K ctx'"
proof -
  from r obtain bs where "mapM_st (emitOpenAI S n) ctx (map fst (callsOpenAI S obj)) = Ret (bs, ctx')"
    unfolding emitObjectOpenAI_calls
    by (auto simp: bind_Ret_iff split: option.splits)
  from mapM_st_keeps[OF E this I] show ?thesis .
qed

lemma emitOpenAI_keeps:
  assumes E: "emitKeeps (emitOpenAI S n)" and D: "ensureAdds (ensureDefOpenAI S n)"
    and O: "emitObjectKeeps (emitObjectOpenAI S n)"
    and I: "defsInv d K ctx" and r: "emitOpenAI S (Suc n) ctx node = Ret (s, ctx')"
  shows "defsInv d K ctx'"
proof (cases node)
  case (TypeRef name)
  with r have "ensureDefOpenAI S n ctx name = Ret ctx'" by (auto simp: bind_Ret_iff)
  with D I have "defsInv d (insert name K) ctx'" unfolding ensureAdds_def by blast
  then show ?thesis by (rule defsInv_mono) blast
next
  case (UnionT members)
  show ?thesis
  proof (cases "list_all isScalarLiteral members")
    case True
    with r UnionT have "ctx' = ctx" by (auto simp: bind_Ret_iff Let_def)
    with I show ?thesis by simp
  next
    case False
    with r UnionT obtain schemas where "mapM_st (emitOpenAI S n) ctx members = Ret (schemas, ctx')"
      by (auto simp: bind_Ret_iff)
    from mapM_st_keeps[OF E this I] show ?thesis .
  qed
next
  case (Intersection members)
  with r obtain obj where "emitObjectOpenAI S n ctx obj = Ret (s, ctx')"
    by (auto simp: bind_Ret_iff)
  with O I show ?thesis unfolding emitObjectKeeps_def by blast
next
  case (Object ps sigs cl)
  with r O I show ?thesis unfolding emitObjectKeeps_def by simp
qed (use r I in auto)

lemma openai_keeps_all:
  "emitKeeps (emitOpenAI S n) \<and> ensureAdds (ensureDefOpenAI S n) \<and>
   emitObjectKeeps (emitObjectOpenAI S n)"
proof (induction n)
  case 0
  show ?case by (simp add: emitKeeps_def ensureAdds_def emitObjectKeeps_def)
next
  case (Suc n)
  then have E: "emitKeeps (emitOpenAI S n)" and D: "ensureAdds (ensureDefOpenAI S n)"
    and O: "emitObjectKeeps (emitObjectOpenAI S n)" by blast+
  have "emitKeeps (emitOpenAI S (Suc n))"
    unfolding emitKeeps_def using emitOpenAI_keeps[OF E D O] by blast
  moreover have "ensureAdds (ensureDefOpenAI S (Suc n))"
    unfolding ensureAdds_def using ensureDefOpenAI_adds[OF E] by blast
  moreover have "emitObjectKeeps (emitObjectOpenAI S (Suc n))"
    unfolding emitObjectKeeps_def using emitObjectOpenAI_keeps[OF E] by blast
  ultimately show ?case by blast
qed

subsection \<open>The Gemini emitter\<close>

lemma ensureDefGemini_adds:
  assumes E: "emitKeeps (emitGemini S n)" and I: "defsInv d K ctx"
    and r: "ensureDefGemini S (Suc n) ctx name = Ret ctx'"
  shows "defsInv d (insert name K) ctx'"
  using r
proof (cases rule: ensureDefGemini_cases)
  case known
  with I show ?thesis by (simp add: defsInv_known)
next
  case recursive
  from I recursive(2) have "name \<in> fst ` set (types d)" unfolding defsInv_def by blast
  from defsInv_update[OF I this] recursive(3) show ?thesis by simp
next
  case (fresh td schema c1)
  from I have dd: "doc ctx = d" unfolding defsInv_def by simp
  from fresh(3) dd have nm: "name \<in> fst ` set (types d)"
    by (force dest: map_of_SomeD)
  from I nm have "defsInv d K (ctx\<lparr>stack := insert name (stack ctx)\<rparr>)"
    by (intro defsInv_stack) (auto simp: defsInv_def)
  from emitKeeps_D[OF E this fresh(4)] have 1: "defsInv d K c1" .
  then have "defsInv d K (c1\<lparr>stack := stack c1 - {name}\<rparr>)"
    by (intro defsInv_stack) (auto simp: defsInv_def)
  from defsInv_update[OF this nm, of schema] show ?thesis unfolding fresh(5) by simp
qed

lemma emitObjectGemini_keeps:
  assumes E: "emitKeeps (emitGemini S n)" and I: "defsInv d K ctx"
    and r: "emitObjectGemini S (Suc n) ctx obj = Ret (s, ctx')"
  shows "defsInv d K ctx'"
proof -
  from r obtain bs where "mapM_st (emitGemini S n) ctx (map fst (callsGemini S obj)) = Ret (bs, ctx')"
    unfolding emitObjectGemini_calls
    by (auto simp: bind_Ret_iff)
  from mapM_st_keeps[OF E this I] show ?thesis .
qed

lemma emitGemini_keeps:
  assumes E: "emitKeeps (emitGemini S n)" and D: "ensureAdds (ensureDefGemini S n)"
    and O: "emitObjectKeeps (emitObjectGemini S n)"
    and I: "defsInv d K ctx" and r: "emitGemini S (Suc n) ctx node = Ret (s, ctx')"
  shows "defsInv d K ctx'"
proof (cases node)
  case (TypeRef name)
  with r have "ensureDefGemini S n ctx name = Ret ctx'" by (auto simp: bind_Ret_iff)
  with D I have "defsInv d (insert name K) ctx'" unfolding ensureAdds_def by blast
  then show ?thesis by (rule defsInv_mono) blast
next
  case (UnionT members)
  show ?thesis
  proof (cases "list_all isScalarLiteral members")
    case True
    with r UnionT have "ctx' = ctx" by (auto simp: bind_Ret_iff Let_def)
    with I show ?thesis by simp
  next
    case False
    with r UnionT obtain schemas where "mapM_st (emitGemini S n) ctx members = Ret (schemas, ctx')"
      by (auto simp: bind_Ret_iff)
    from mapM_st_keeps[OF E this I] show ?thesis .
  qed
next
  case (Intersection members)
  with r obtain obj where "emitObjectGemini S n ctx obj = Ret (s, ctx')"
    by (auto simp: bind_Ret_iff)
  with O I show ?thesis unfolding emitObjectKeeps_def by blast
next
  case (Object ps sigs cl)
  with r O I show ?thesis unfolding emitObjectKeeps_def by simp
qed (use r I in auto)

lemma gemini_keeps_all:
  "emitKeeps (emitGemini S n) \<and> ensureAdds (ensureDefGemini S n) \<and>
   emitObjectKeeps (emitObjectGemini S n)"
proof (induction n)
  case 0
  show ?case by (simp add: emitKeeps_def ensureAdds_def emitObjectKeeps_def)
next
  case (Suc n)
  then have E: "emitKeeps (emitGemini S n)" and D: "ensureAdds (ensureDefGemini S n)"
    and O: "emitObjectKeeps (emitObjectGemini S n)" by blast+
  have "emitKeeps (emitGemini S (Suc n))"
    unfolding emitKeeps_def using emitGemini_keeps[OF E D O] by blast
  moreover have "ensureAdds (ensureDefGemini S (Suc n))"
    unfolding ensureAdds_def using ensureDefGemini_adds[OF E] by blast
  moreover have "emitObjectKeeps (emitObjectGemini S (Suc n))"
    unfolding emitObjectKeeps_def using emitObjectGemini_keeps[OF E] by blast
  ultimately show ?case by blast
qed

subsection \<open>The generators\<close>

lemma generator_defs:
  assumes E: "emitKeeps e" and D: "ensureAdds en"
    and r: "bind (foldM en \<lparr>doc = d, defs = [], stack = {}\<rparr> (map fst (types d)))
              (\<lambda>ctx. bind (mapM_st e ctx nodes) (\<lambda>(bs, c). Ret (rootSchema (P bs) R (defs c)))) = Ret out"
  shows "\<exists>ps ds. out = rootSchema ps R ds \<and> distinct (map fst ds) \<and>
            fst ` set ds = fst ` set (types d)"
proof -
  from r obtain ctx bs c where f: "foldM en \<lparr>doc = d, defs = [], stack = {}\<rparr> (map fst (types d)) = Ret ctx"
    and m: "mapM_st e ctx nodes = Ret (bs, c)" and out: "out = rootSchema (P bs) R (defs c)"
    by (auto simp: bind_Ret_iff)
  have "defsInv d (set ([] @ map fst (types d))) ctx"
    using f
  proof (rule foldM_prefix_invariant[where I = "\<lambda>pre c. defsInv d (set pre) c"])
    show "defsInv d (set []) \<lparr>doc = d, defs = [], stack = {}\<rparr>" by (simp add: defsInv_def)
  next
    fix pre x s s1
    assume "defsInv d (set pre) s" "en s x = Ret s1"
    with D have "defsInv d (insert x (set pre)) s1" unfolding ensureAdds_def by blast
    then show "defsInv d (set (pre @ [x])) s1" by simp
  qed
  then have "defsInv d (fst ` set (types d)) ctx" by simp
  from mapM_st_keeps[OF E m this] have "defsInv d (fst ` set (types d)) c" .
  then have "distinct (map fst (defs c))" "fst ` set (defs c) = fst ` set (types d)"
    unfolding defsInv_def by auto
  with out show ?thesis by blast
qed

definition orderDoc :: TDLDoc where
  "orderDoc =
     \<lparr>types = [(''A'', \<lparr>td_name = ''A'',
                  td_node = Object [PropNode ''b'' (TypeRef ''B'') False False] [] False\<rparr>),
               (''B'', \<lparr>td_name = ''B'',
                  td_node = Object [PropNode ''x'' (Primitive PString) False False] [] False\<rparr>),
               (''C'', \<lparr>td_name = ''C'', td_node = Primitive PNumber\<rparr>)],
      symbols = [\<lparr>s_name = ''a'', s_type = TypeRef ''A'', s_optional = False, s_isArray = False\<rparr>],
      meta = []\<rparr>"

definition orderDefs :: "bool \<Rightarrow> (string \<times> json) list" where
  "orderDefs additional =
     [(''B'', objectSchema [(''x'', JObj [(''type'', JStr ''string'')])] [''x''] (JBool additional)),
      (''A'', objectSchema [(''b'', JObj [(''$ref'', JStr ''#/$defs/B'')])] [''b''] (JBool additional)),
      (''C'', JObj [(''type'', JStr ''number'')])]"

lemma generate_orderDoc:
  "generateOpenAISchema integerString 8 orderDoc =
     Ret (rootSchema [(''a'', JObj [(''$ref'', JStr ''#/$defs/A'')])] [''a''] (orderDefs False))"
  "generateGeminiSchema integerString 8 orderDoc =
     Ret (rootSchema [(''a'', JObj [(''$ref'', JStr ''#/$defs/A'')])] [''a''] (orderDefs True))"
  by (simp_all add: eval_nat_numeral generateOpenAISchema_def generateGeminiSchema_def orderDoc_def
      orderDefs_def rootSchema_def objectSchema_def bind_simps setProperty_def Let_def)





end
